theory Spec2Isabelle
  imports
    Main
    "HOL-Library.Word"
    "HOL-Library.List_Lexorder"
    "HOL-Library.Char_ord"
    "HOL-Library.Product_Lexorder"
begin

unbundle bit_operations_syntax

section \<open>The bitstream reader of bitread.py\<close>

text \<open>
  A shallow embedding of \<^verbatim>\<open>src/bitread.py\<close>. Python integers are \<open>int\<close>, a byte of
  the bitstream is an \<open>8 word\<close>, a word of the bitstream is the list of its 32 bits
  (index 0 the least significant) as the source builds it, and every exception and
  every \<^verbatim>\<open>exit()\<close> of the source is an \<open>error\<close> value.
\<close>

subsection \<open>Errors\<close>

datatype error =
    TypeError            \<comment> \<open>\<^verbatim>\<open>ord(b'')\<close>: \<^verbatim>\<open>read(1)\<close> returned no byte (end of file)\<close>
  | IndexError           \<comment> \<open>index out of range on a list or string\<close>
  | ValueError           \<comment> \<open>\<^verbatim>\<open>int(s)\<close> on a string that is no decimal literal\<close>
  | OSError              \<comment> \<open>\<^verbatim>\<open>seek\<close> to a negative position\<close>
  | UnboundLocalError    \<comment> \<open>\<^verbatim>\<open>family\<close> read in \<^verbatim>\<open>get_frame_list\<close> before any assignment\<close>
  | FileNotFoundError    \<comment> \<open>\<^verbatim>\<open>open\<close> of a descriptor that does not exist\<close>
  | UnrecognizedFormat   \<comment> \<open>\<^verbatim>\<open>raise Exception('Unrecognized bitstream format')\<close>\<close>
  | MalformedPacket      \<comment> \<open>prints "ERROR: Config packet length must be multiple of frame length", then \<^verbatim>\<open>exit()\<close>\<close>
  | IncompletePacket     \<comment> \<open>prints "ERROR: Config packet not fully parsed.", then \<^verbatim>\<open>exit()\<close>\<close>
  | UnsupportedDevice    \<comment> \<open>prints "ERROR: Only Series-7 parts are supported by BFAT", then \<^verbatim>\<open>exit()\<close>\<close>

subsection \<open>The opened file and its cursor\<close>

text \<open>
  The file opened in mode \<^verbatim>\<open>"rb"\<close> is its bytes together with a cursor: \<open>consumed\<close>
  holds the bytes before the cursor (the most recently read one first) and \<open>rest\<close> the
  bytes from the cursor on. The file's content is \<open>rev (consumed f) @ rest f\<close> and the
  cursor position is \<open>length (consumed f)\<close>.
\<close>

type_synonym byte = "8 word"

record bitfile =
  consumed :: "byte list"
  rest :: "byte list"


definition contents :: "bitfile \<Rightarrow> byte list" where
  "contents f = rev (consumed f) @ rest f"

text \<open>\<^verbatim>\<open>bitfile.read(1)\<close>: one byte, or the empty bytes object at the end of the file.\<close>

definition read_byte :: "bitfile \<Rightarrow> byte list \<times> bitfile" where
  "read_byte f =
     (case rest f of
        [] \<Rightarrow> ([], f)
      | b # bs \<Rightarrow> ([b], \<lparr>consumed = b # consumed f, rest = bs\<rparr>))"

text \<open>\<^verbatim>\<open>bitfile.seek(-1, 1)\<close>: one byte back from the current position.\<close>

definition seek_back :: "bitfile \<Rightarrow> error + bitfile" where
  "seek_back f =
     (case consumed f of
        [] \<Rightarrow> Inl OSError
      | b # bs \<Rightarrow> Inr \<lparr>consumed = bs, rest = b # rest f\<rparr>)"

text \<open>\<^verbatim>\<open>ord(byte)\<close> on a bytes object: defined on length 1 only.\<close>

definition py_ord :: "byte list \<Rightarrow> error + int" where
  "py_ord bs = (case bs of [b] \<Rightarrow> Inr (uint b) | _ \<Rightarrow> Inl TypeError)"

text \<open>The loop \<^verbatim>\<open>for i in range(n): byte = bitfile.read(1); ... ord(byte)\<close>.\<close>

fun read_ints :: "nat \<Rightarrow> bitfile \<Rightarrow> error + (int list \<times> bitfile)" where
  "read_ints 0 f = Inr ([], f)"
| "read_ints (Suc n) f =
     (case read_byte f of (byte, f1) \<Rightarrow>
        (case py_ord byte of
           Inl e \<Rightarrow> Inl e
         | Inr v \<Rightarrow>
             (case read_ints n f1 of
                Inl e \<Rightarrow> Inl e
              | Inr (vs, f2) \<Rightarrow> Inr (v # vs, f2))))"

subsection \<open>Helper functions\<close>

text \<open>
  The second loop of \<^verbatim>\<open>parse_word\<close> (and of \<^verbatim>\<open>read_bytes_ascii\<close>):
  \<^verbatim>\<open>for byte in reversed(word_ints): for i in range(8): word_bits.append((byte >> i) & 1)\<close>.
\<close>

definition word_bits :: "int list \<Rightarrow> int list" where
  "word_bits word_ints =
     concat (map (\<lambda>byte. map (\<lambda>i. drop_bit i byte AND 1) [0..<8]) (rev word_ints))"

definition parse_word :: "bitfile \<Rightarrow> error + (int list \<times> bitfile)" where
  "parse_word f =
     (case read_ints 4 f of
        Inl e \<Rightarrow> Inl e
      | Inr (word_ints, f') \<Rightarrow> Inr (word_bits word_ints, f'))"

definition bits_to_int :: "int list \<Rightarrow> int" where
  "bits_to_int binary =
     foldl (\<lambda>int_value (i, bit). int_value + bit * 2 ^ i) 0 (enumerate 0 binary)"

definition read_bytes_ascii :: "bitfile \<Rightarrow> error + (string \<times> bitfile)" where
  "read_bytes_ascii f =
     (case read_ints 2 f of
        Inl e \<Rightarrow> Inl e
      | Inr (two_bytes, f1) \<Rightarrow>
          (let read_len = bits_to_int (word_bits two_bytes) in
           (case read_ints (nat read_len) f1 of
              Inl e \<Rightarrow> Inl e
            | Inr (field, f2) \<Rightarrow> Inr (map char_of field, f2))))"

text \<open>The loop \<^verbatim>\<open>for i in range(n): ... parse_word(bitfile)\<close>, keeping the words read.\<close>

fun read_words :: "nat \<Rightarrow> bitfile \<Rightarrow> error + (int list list \<times> bitfile)" where
  "read_words 0 f = Inr ([], f)"
| "read_words (Suc n) f =
     (case parse_word f of
        Inl e \<Rightarrow> Inl e
      | Inr (w, f1) \<Rightarrow>
          (case read_words n f1 of
             Inl e \<Rightarrow> Inl e
           | Inr (ws, f2) \<Rightarrow> Inr (w # ws, f2)))"

text \<open>Python's \<^verbatim>\<open>xs[a:b]\<close> for literal bounds \<open>0 \<le> a \<le> b\<close>, and \<^verbatim>\<open>xs[-3:]\<close>.\<close>

definition py_slice :: "nat \<Rightarrow> nat \<Rightarrow> 'a list \<Rightarrow> 'a list" where
  "py_slice a b xs = take (b - a) (drop a xs)"

definition last3 :: "'a list \<Rightarrow> 'a list" where
  "last3 xs = drop (length xs - 3) xs"

text \<open>\<^verbatim>\<open>sum([b<<i for i, b in enumerate(bits)])\<close>.\<close>

definition shift_sum :: "int list \<Rightarrow> int" where
  "shift_sum bs = sum_list (map (\<lambda>(i, b). push_bit i b) (enumerate 0 bs))"

subsection \<open>find\_config\_packet\<close>

text \<open>The tests \<^verbatim>\<open>word[-3:] == [1, 0, 0]\<close> and \<^verbatim>\<open>word[-3:] == [0, 1, 0]\<close> of the packet loop.\<close>

definition type_1_header :: "int list \<Rightarrow> bool" where
  "type_1_header word = (last3 word = [1, 0, 0])"

definition type_2_header :: "int list \<Rightarrow> bool" where
  "type_2_header word = (last3 word = [0, 1, 0])"

definition packet_1_length :: "int list \<Rightarrow> int" where
  "packet_1_length word = shift_sum (take 11 word)"

definition packet_1_addr :: "int list \<Rightarrow> int" where
  "packet_1_addr word = shift_sum (py_slice 13 27 word)"

definition packet_1_opcode :: "int list \<Rightarrow> int" where
  "packet_1_opcode word = shift_sum (py_slice 27 29 word)"

definition SYNC_WORD :: int where
  "SYNC_WORD = 2862175590"

text \<open>
  The synchronisation loop \<^verbatim>\<open>while not sync_word_found\<close>: one byte is read; on 0xAA the
  cursor moves back one byte and a whole word is read and compared with the sync word.
  After a word that is not the sync word the loop goes on from where that word ended.
\<close>

lemma read_byte_shorter:
  "read_byte f = (byte, f1) \<Longrightarrow> py_ord byte = Inr v \<Longrightarrow> length (rest f1) < length (rest f)"
  by (auto simp: read_byte_def py_ord_def split: list.splits)

lemma read_byte_seek_back:
  "read_byte f = (byte, f1) \<Longrightarrow> py_ord byte = Inr v \<Longrightarrow> seek_back f1 = Inr f2 \<Longrightarrow> f2 = f"
  by (auto simp: read_byte_def py_ord_def seek_back_def split: list.splits)

lemma read_ints_rest:
  "read_ints n f = Inr (vs, f') \<Longrightarrow> length (rest f') + n = length (rest f)"
proof (induction n arbitrary: f vs)
  case 0
  then show ?case by simp
next
  case (Suc n)
  then show ?case
    by (fastforce simp: read_byte_def py_ord_def split: list.splits sum.splits prod.splits)
qed

lemma parse_word_rest:
  "parse_word f = Inr (w, f') \<Longrightarrow> length (rest f') + 4 = length (rest f)"
  by (auto simp: parse_word_def split: sum.splits dest: read_ints_rest)

lemma read_words_rest:
  "read_words n f = Inr (ws, f') \<Longrightarrow> length (rest f') + 4 * n = length (rest f)"
proof (induction n arbitrary: f ws)
  case 0
  then show ?case by simp
next
  case (Suc n)
  then show ?case
    by (fastforce split: sum.splits prod.splits dest: parse_word_rest)
qed

lemma sync_retry_shorter:
  "read_byte f = (byte, f1) \<Longrightarrow> py_ord byte = Inr v \<Longrightarrow> seek_back f1 = Inr f2 \<Longrightarrow>
   parse_word f2 = Inr (w, f3) \<Longrightarrow> length (rest f3) < length (rest f)"
  using read_byte_seek_back[of f byte f1 v f2] parse_word_rest[of f2 w f3] by auto

function sync_search :: "bitfile \<Rightarrow> error + bitfile" where
  "sync_search f =
     (case read_byte f of (byte, f1) \<Rightarrow>
        (case py_ord byte of
           Inl e \<Rightarrow> Inl e
         | Inr v \<Rightarrow>
             if v = 170 then
               (case seek_back f1 of
                  Inl e \<Rightarrow> Inl e
                | Inr f2 \<Rightarrow>
                    (case parse_word f2 of
                       Inl e \<Rightarrow> Inl e
                     | Inr (w, f3) \<Rightarrow>
                         if bits_to_int w = SYNC_WORD then Inr f3 else sync_search f3))
             else sync_search f1))"
  by pat_completeness auto
termination
  by (relation "measure (\<lambda>f. length (rest f))")
    (auto dest: read_byte_shorter[OF sym] sync_retry_shorter[OF sym])

declare sync_search.simps [simp del]

text \<open>
  One pass through the body of the packet loop \<^verbatim>\<open>while not in_config_data\<close>, from the
  value of \<^verbatim>\<open>type_2_fdri_write\<close> and the cursor: either the Type 2 header is found
  (its length is returned), or the loop continues with a new value of the flag.
\<close>

datatype scan_outcome = Found int bitfile | Continue bool bitfile

definition scan_word :: "bool \<Rightarrow> bitfile \<Rightarrow> error + scan_outcome" where
  "scan_word type_2_fdri_write f =
     (case parse_word f of
        Inl e \<Rightarrow> Inl e
      | Inr (word, f1) \<Rightarrow>
          if type_2_header word \<and> type_2_fdri_write then
            Inr (Found (shift_sum (take 27 word)) f1)
          else if type_1_header word then
            (case read_words (nat (packet_1_length word)) f1 of
               Inl e \<Rightarrow> Inl e
             | Inr (packet_1_data, f2) \<Rightarrow>
                 Inr (Continue (packet_1_opcode word = 2 \<and> packet_1_addr word = 2
                                \<and> packet_1_length word = 0) f2))
          else Inr (Continue False f1))"

lemma scan_word_shorter:
  "scan_word fl f = Inr (Continue fl' f') \<Longrightarrow> length (rest f') < length (rest f)"
  by (auto simp: scan_word_def split: sum.splits prod.splits if_splits
      dest!: parse_word_rest read_words_rest)

function packet_scan :: "bool \<Rightarrow> bitfile \<Rightarrow> error + (int \<times> bitfile)" where
  "packet_scan type_2_fdri_write f =
     (case scan_word type_2_fdri_write f of
        Inl e \<Rightarrow> Inl e
      | Inr (Found packet_2_length f') \<Rightarrow> Inr (packet_2_length, f')
      | Inr (Continue fl f') \<Rightarrow> packet_scan fl f')"
  by pat_completeness auto
termination
  by (relation "measure (\<lambda>(fl, f). length (rest f))") (auto dest: scan_word_shorter)

declare packet_scan.simps [simp del]

definition find_config_packet :: "bitfile \<Rightarrow> error + ((string \<times> int) \<times> bitfile)" where
  "find_config_packet f =
     (case read_bytes_ascii f of
        Inl e \<Rightarrow> Inl e
      | Inr (field1, f1) \<Rightarrow>
     (case read_bytes_ascii f1 of
        Inl e \<Rightarrow> Inl e
      | Inr (a_char, f2) \<Rightarrow>
     if a_char \<noteq> ''a'' then Inl UnrecognizedFormat else
     (case read_bytes_ascii f2 of
        Inl e \<Rightarrow> Inl e
      | Inr (field3, f3) \<Rightarrow>
     (case read_byte f3 of (sep, f4) \<Rightarrow>
     (case read_bytes_ascii f4 of
        Inl e \<Rightarrow> Inl e
      | Inr (field4, f5) \<Rightarrow>
     (case butlast field4 of
        [] \<Rightarrow> Inl IndexError
      | c # cs \<Rightarrow>
     (let part_name = (if c = CHR ''7'' then ''xc'' @ (c # cs) @ ''-1'' else c # cs) in
     (case sync_search f5 of
        Inl e \<Rightarrow> Inl e
      | Inr f6 \<Rightarrow>
     (case packet_scan False f6 of
        Inl e \<Rightarrow> Inl e
      | Inr (packet_2_length, f7) \<Rightarrow> Inr ((part_name, packet_2_length), f7))))))))))"

subsection \<open>parse\_config\_packet\<close>

text \<open>A frame of the frame list is the pair \<^verbatim>\<open>[frame_addr_hex, curr_addr]\<close>.\<close>

type_synonym frame = "string \<times> int list"

definition FRAME_LENGTH :: nat where
  "FRAME_LENGTH = 101"

text \<open>\<^verbatim>\<open>str(n)\<close> for a non-negative integer, and \<^verbatim>\<open>s.rjust(width, fill)\<close>.\<close>

fun str_nat :: "nat \<Rightarrow> string" where
  "str_nat n = (if n < 10 then [char_of (48 + n)] else str_nat (n div 10) @ [char_of (48 + n mod 10)])"

declare str_nat.simps [simp del]

definition rjust :: "nat \<Rightarrow> char \<Rightarrow> string \<Rightarrow> string" where
  "rjust width fill s = replicate (width - length s) fill @ s"

text \<open>\<^verbatim>\<open>f'bit_{frame[0]}_{word_offset_str}_{bit_offset_str}'\<close>.\<close>

definition bit_name :: "string \<Rightarrow> nat \<Rightarrow> nat \<Rightarrow> string" where
  "bit_name frame_addr_hex word_offset bit_offset =
     ''bit_'' @ frame_addr_hex @ ''_'' @ rjust 3 (CHR ''0'') (str_nat word_offset)
       @ ''_'' @ rjust 2 (CHR ''0'') (str_nat bit_offset)"

text \<open>The loop \<^verbatim>\<open>for bit_offset, bit in enumerate(word)\<close>, appending to \<^verbatim>\<open>bits\<close>.\<close>

definition word_loop :: "string \<Rightarrow> nat \<Rightarrow> int list \<Rightarrow> string list \<Rightarrow> string list" where
  "word_loop frame_addr_hex word_offset word bits =
     foldl (\<lambda>bits (bit_offset, bit).
              let in_clock_row_bits = (word_offset = 50 \<and> bit_offset \<le> 12) in
              if bit = 1 \<and> \<not> in_clock_row_bits
              then bits @ [bit_name frame_addr_hex word_offset bit_offset]
              else bits)
       bits (enumerate 0 word)"

text \<open>
  The loop \<^verbatim>\<open>for word_offset in range(FRAME_LENGTH)\<close> over the word offsets still to do,
  on the state \<open>(bits, frames_remaining, bitfile)\<close>.
\<close>

fun frame_words ::
  "string \<Rightarrow> nat list \<Rightarrow> string list \<times> int \<times> bitfile \<Rightarrow> error + (string list \<times> int \<times> bitfile)" where
  "frame_words frame_addr_hex [] st = Inr st"
| "frame_words frame_addr_hex (word_offset # offsets) (bits, frames_remaining, f) =
     (case parse_word f of
        Inl e \<Rightarrow> Inl e
      | Inr (word, f1) \<Rightarrow>
          frame_words frame_addr_hex offsets
            (word_loop frame_addr_hex word_offset word bits, frames_remaining - 1, f1))"

text \<open>
  The loop \<^verbatim>\<open>for i in range(FRAME_LENGTH*2): parse_word(bitfile)\<close> of the row-boundary skip,
  on the counter and the cursor: the words are read and dropped, and the counter, taken
  down by the whole skip before the loop, is not touched.
\<close>

fun skip_loop :: "nat \<Rightarrow> int \<times> bitfile \<Rightarrow> error + (int \<times> bitfile)" where
  "skip_loop 0 st = Inr st"
| "skip_loop (Suc n) (frames_remaining, f) =
     (case parse_word f of
        Inl e \<Rightarrow> Inl e
      | Inr (word, f1) \<Rightarrow> skip_loop n (frames_remaining, f1))"

text \<open>The body of \<^verbatim>\<open>for frame in frames\<close>, from \<^verbatim>\<open>prev_frame\<close>.\<close>

definition frame_step ::
  "frame \<Rightarrow> frame \<Rightarrow> string list \<times> int \<times> bitfile \<Rightarrow> error + (string list \<times> int \<times> bitfile)" where
  "frame_step prev_frame frame st =
     (case st of (bits, frames_remaining, f) \<Rightarrow>
        if py_slice 17 23 (snd prev_frame) \<noteq> py_slice 17 23 (snd frame) then
          (case skip_loop (FRAME_LENGTH * 2) (frames_remaining - int (FRAME_LENGTH * 2), f) of
             Inl e \<Rightarrow> Inl e
           | Inr (frames_remaining, f1) \<Rightarrow>
               frame_words (fst frame) [0..<FRAME_LENGTH] (bits, frames_remaining, f1))
        else frame_words (fst frame) [0..<FRAME_LENGTH] (bits, frames_remaining, f))"

fun frames_loop ::
  "frame \<Rightarrow> frame list \<Rightarrow> string list \<times> int \<times> bitfile \<Rightarrow> error + (string list \<times> int \<times> bitfile)" where
  "frames_loop prev_frame [] st = Inr st"
| "frames_loop prev_frame (frame # frames) st =
     (case frame_step prev_frame frame st of
        Inl e \<Rightarrow> Inl e
      | Inr st' \<Rightarrow> frames_loop frame frames st')"

definition parse_config_packet ::
  "bitfile \<Rightarrow> int \<Rightarrow> frame list \<Rightarrow> error + (string list \<times> bitfile)" where
  "parse_config_packet f config_packet_length frames =
     (if config_packet_length mod int FRAME_LENGTH \<noteq> 0 then Inl MalformedPacket
      else
        (case frames of
           [] \<Rightarrow> Inl IndexError
         | prev_frame # later \<Rightarrow>
             (case frames_loop prev_frame frames ([], config_packet_length, f) of
                Inl e \<Rightarrow> Inl e
              | Inr (bits, frames_remaining, f') \<Rightarrow>
                  if frames_remaining \<noteq> int (2 * FRAME_LENGTH) then Inl IncompletePacket
                  else Inr (bits, f'))))"

declare frame_words.simps [simp del]

subsection \<open>Strings\<close>

text \<open>\<^verbatim>\<open>sub in s\<close> on strings.\<close>

fun contains :: "string \<Rightarrow> string \<Rightarrow> bool" where
  "contains sub [] = (sub = [])"
| "contains sub (c # cs) = (take (length sub) (c # cs) = sub \<or> contains sub cs)"

text \<open>\<^verbatim>\<open>s.split(sep)\<close> for a separator of one character, and \<^verbatim>\<open>xs[1::2]\<close>.\<close>

fun split_on :: "char \<Rightarrow> string \<Rightarrow> string list" where
  "split_on sep [] = [[]]"
| "split_on sep (c # cs) =
     (if c = sep then [] # split_on sep cs
      else (case split_on sep cs of
              [] \<Rightarrow> [[c]]
            | p # ps \<Rightarrow> (c # p) # ps))"

fun odd_items :: "'a list \<Rightarrow> 'a list" where
  "odd_items (x # y # zs) = y # odd_items zs"
| "odd_items xs = []"

text \<open>
  \<^verbatim>\<open>s.strip()\<close>: the white space of Python among the characters below 256 is
  \<open>\t \n \v \f \r\<close>, \<open>0x1c..0x1f\<close>, the space, \<open>0x85\<close> and \<open>0xa0\<close>.
\<close>

definition py_isspace :: "char \<Rightarrow> bool" where
  "py_isspace c \<longleftrightarrow> (of_char c :: nat) \<in> {9, 10, 11, 12, 13, 28, 29, 30, 31, 32, 133, 160}"

definition strip :: "string \<Rightarrow> string" where
  "strip s = rev (dropWhile py_isspace (rev (dropWhile py_isspace s)))"

text \<open>
  \<^verbatim>\<open>int(s)\<close> on a string: white space around is dropped, then an optional sign and decimal
  digits, with single underscores allowed between digits; anything else raises ValueError.
  (The length limit of recent Python versions on the digits is left out.)
\<close>

definition is_digit :: "char \<Rightarrow> bool" where
  "is_digit c \<longleftrightarrow> 48 \<le> (of_char c :: nat) \<and> (of_char c :: nat) \<le> 57"

fun digits_ok :: "string \<Rightarrow> bool" where
  "digits_ok [] = False"
| "digits_ok [c] = is_digit c"
| "digits_ok (c # d # cs) =
     (is_digit c \<and> (if d = CHR ''_'' then cs \<noteq> [] \<and> digits_ok cs else digits_ok (d # cs)))"

definition digits_value :: "string \<Rightarrow> int" where
  "digits_value s = foldl (\<lambda>v c. 10 * v + (of_char c - 48)) 0 (filter is_digit s)"

definition py_int :: "string \<Rightarrow> error + int" where
  "py_int s =
     (case strip s of
        [] \<Rightarrow> Inl ValueError
      | c # cs \<Rightarrow>
          if c = CHR ''-'' then (if digits_ok cs then Inr (- digits_value cs) else Inl ValueError)
          else if c = CHR ''+'' then (if digits_ok cs then Inr (digits_value cs) else Inl ValueError)
          else (if digits_ok (c # cs) then Inr (digits_value (c # cs)) else Inl ValueError))"

text \<open>\<^verbatim>\<open>hex(n)\<close>, \<^verbatim>\<open>s.lstrip(chars)\<close>.\<close>

definition hex_char :: "nat \<Rightarrow> char" where
  "hex_char d = (if d < 10 then char_of (48 + d) else char_of (87 + d))"

fun hex_digits :: "nat \<Rightarrow> string" where
  "hex_digits n = (if n < 16 then [hex_char n] else hex_digits (n div 16) @ [hex_char (n mod 16)])"

declare hex_digits.simps [simp del]

definition py_hex :: "int \<Rightarrow> string" where
  "py_hex n = (if n < 0 then ''-0x'' @ hex_digits (nat (- n)) else ''0x'' @ hex_digits (nat n))"

definition lstrip :: "string \<Rightarrow> string \<Rightarrow> string" where
  "lstrip chars s = dropWhile (\<lambda>c. c \<in> set chars) s"

subsection \<open>get\_frame\_list\<close>

definition HALF_SCOPE :: int where "HALF_SCOPE = 2"
definition ROW_SCOPE :: int where "ROW_SCOPE = 4"
definition BUS_SCOPE :: int where "BUS_SCOPE = 6"
definition COL_SCOPE :: int where "COL_SCOPE = 8"
definition FRAME_COUNT_SCOPE :: int where "FRAME_COUNT_SCOPE = 9"

text \<open>
  The four tests on the part name. Each is an \<^verbatim>\<open>if\<close> of its own, so the last one that
  holds gives the family and \<^verbatim>\<open>family\<close> stays unbound (\<open>None\<close>) when none holds.
\<close>

definition family_of :: "string \<Rightarrow> string option" where
  "family_of part =
     (let family = None;
          family = (if contains ''xc7a'' part then Some ''artix7'' else family);
          family = (if contains ''xc7k'' part then Some ''kintex7'' else family);
          family = (if contains ''xc7s'' part then Some ''spartan7'' else family);
          family = (if contains ''xc7z'' part then Some ''zynq7'' else family)
      in family)"

text \<open>
  The loops \<^verbatim>\<open>for i, index in enumerate(range(lo, hi)): curr_addr[index] = (v >> i) & 1\<close>
  (rows: 17..21, columns: 7..16) and \<^verbatim>\<open>for index in range(7): curr_addr[index] = (minor_addr >> index) & 1\<close>.
\<close>

definition set_bits :: "nat \<Rightarrow> nat \<Rightarrow> int \<Rightarrow> int list \<Rightarrow> int list" where
  "set_bits lo n v curr_addr =
     foldl (\<lambda>addr i. addr[lo + i := drop_bit i v AND 1]) curr_addr [0..<n]"

definition frame_addr_hex :: "int list \<Rightarrow> string" where
  "frame_addr_hex curr_addr = rjust 8 (CHR ''0'') (lstrip ''0x'' (py_hex (bits_to_int curr_addr)))"

text \<open>The row and column sections: \<^verbatim>\<open>num = line.split('"')[1::2]; if num: ... int(num[0]) ...\<close>.\<close>

definition number_line :: "nat \<Rightarrow> nat \<Rightarrow> string \<Rightarrow> int list \<Rightarrow> error + int list" where
  "number_line lo n line curr_addr =
     (case odd_items (split_on (CHR 0x22) line) of
        [] \<Rightarrow> Inr curr_addr
      | num # others \<Rightarrow>
          (case py_int num of
             Inl e \<Rightarrow> Inl e
           | Inr v \<Rightarrow> Inr (set_bits lo n v curr_addr)))"

definition half_line :: "string \<Rightarrow> int list \<Rightarrow> int list" where
  "half_line line curr_addr =
     (let curr_addr = (if contains ''top'' line then curr_addr[22 := 0] else curr_addr);
          curr_addr = (if contains ''bottom'' line then curr_addr[22 := 1] else curr_addr)
      in curr_addr)"

text \<open>\<^verbatim>\<open>curr_addr[23:26] = reversed(code)\<close>.\<close>

definition set_bus :: "int list \<Rightarrow> int list \<Rightarrow> int list" where
  "set_bus code curr_addr = take 23 curr_addr @ rev code @ drop 26 curr_addr"

definition bus_line :: "string \<Rightarrow> int list \<Rightarrow> int list" where
  "bus_line line curr_addr =
     (let curr_addr = (if contains ''CLB_IO_CLK'' line then set_bus [0, 0, 0] curr_addr else curr_addr);
          curr_addr = (if contains ''BLOCK_RAM'' line then set_bus [0, 0, 1] curr_addr else curr_addr);
          curr_addr = (if contains ''CFG_CLB'' line then set_bus [0, 1, 0] curr_addr else curr_addr)
      in curr_addr)"

text \<open>\<^verbatim>\<open>for minor_addr in range(num_frames)\<close>: the minor bits are set and the frame is appended.\<close>

definition emit_frames :: "int \<Rightarrow> int list \<times> frame list \<Rightarrow> int list \<times> frame list" where
  "emit_frames num_frames st =
     foldl (\<lambda>(curr_addr, frames) minor_addr.
              (let curr_addr = set_bits 0 7 (int minor_addr) curr_addr
               in (curr_addr, frames @ [(frame_addr_hex curr_addr, curr_addr)])))
       st [0..<nat num_frames]"

definition frame_count_line ::
  "string \<Rightarrow> int list \<times> frame list \<Rightarrow> error + (int list \<times> frame list)" where
  "frame_count_line line st =
     (if \<not> contains ''}'' line then
        (case split_on (CHR '' '') (strip line) of
           first # second # others \<Rightarrow>
             (case py_int second of
                Inl e \<Rightarrow> Inl e
              | Inr num_frames \<Rightarrow> Inr (emit_frames num_frames st))
         | short \<Rightarrow> Inl IndexError)
      else Inr st)"

text \<open>The body of \<^verbatim>\<open>for line in p_j\<close> on the state \<open>(curr_scope, curr_addr, frames)\<close>.\<close>

definition line_step ::
  "string \<Rightarrow> int \<times> int list \<times> frame list \<Rightarrow> error + (int \<times> int list \<times> frame list)" where
  "line_step line st =
     (case st of (curr_scope, curr_addr, frames) \<Rightarrow>
        (let curr_addr = (if curr_scope = HALF_SCOPE then half_line line curr_addr else curr_addr) in
         (case (if curr_scope = ROW_SCOPE then number_line 17 5 line curr_addr else Inr curr_addr) of
            Inl e \<Rightarrow> Inl e
          | Inr curr_addr \<Rightarrow>
         (let curr_addr = (if curr_scope = BUS_SCOPE then bus_line line curr_addr else curr_addr) in
         (case (if curr_scope = COL_SCOPE then number_line 7 10 line curr_addr else Inr curr_addr) of
            Inl e \<Rightarrow> Inl e
          | Inr curr_addr \<Rightarrow>
         (case (if curr_scope = FRAME_COUNT_SCOPE then frame_count_line line (curr_addr, frames)
                else Inr (curr_addr, frames)) of
            Inl e \<Rightarrow> Inl e
          | Inr (curr_addr, frames) \<Rightarrow>
         (let curr_scope = (if contains ''{'' line then curr_scope + 1 else curr_scope);
              curr_scope = (if contains ''}'' line then curr_scope - 1 else curr_scope)
          in Inr (curr_scope, curr_addr, frames))))))))"

fun lines_loop ::
  "string list \<Rightarrow> int \<times> int list \<times> frame list \<Rightarrow> error + (int \<times> int list \<times> frame list)" where
  "lines_loop [] st = Inr st"
| "lines_loop (line # lines) st =
     (case line_step line st of
        Inl e \<Rightarrow> Inl e
      | Inr st' \<Rightarrow> lines_loop lines st')"

text \<open>
  \<open>get_xray_dir()\<close> is the directory \<open>xray_dir\<close>; the files are the map \<open>files\<close> from a path
  to the lines of the file, as the iteration over the opened file gives them.
\<close>

definition get_frame_list ::
  "string \<Rightarrow> (string \<rightharpoonup> string list) \<Rightarrow> string \<Rightarrow> error + frame list" where
  "get_frame_list xray_dir files part =
     (case family_of part of
        None \<Rightarrow> Inl UnboundLocalError
      | Some family \<Rightarrow>
          (case files (xray_dir @ ''/'' @ family @ ''/'' @ part @ ''/part.json'') of
             None \<Rightarrow> Inl FileNotFoundError
           | Some p_j \<Rightarrow>
               (case lines_loop p_j (0, replicate 32 0, []) of
                  Inl e \<Rightarrow> Inl e
                | Inr (curr_scope, curr_addr, frames) \<Rightarrow> Inr (sort frames))))"

subsection \<open>get\_high\_bits\<close>

definition get_high_bits ::
  "string \<Rightarrow> (string \<rightharpoonup> string list) \<Rightarrow> byte list \<Rightarrow> error + string list" where
  "get_high_bits xray_dir files bitstream =
     (case find_config_packet \<lparr>consumed = [], rest = bitstream\<rparr> of
        Inl e \<Rightarrow> Inl e
      | Inr ((part, config_packet_length), bitfile) \<Rightarrow>
          (case (if contains ''xc7'' part then get_frame_list xray_dir files part
                 else Inl UnsupportedDevice) of
             Inl e \<Rightarrow> Inl e
           | Inr frames \<Rightarrow>
               (case parse_config_packet bitfile config_packet_length frames of
                  Inl e \<Rightarrow> Inl e
                | Inr (bits, bitfile') \<Rightarrow> Inr bits)))"

section \<open>The claims' vocabulary\<close>

text \<open>
  The words of the stream from the cursor on, four bytes each, and the cursor moved \<open>n\<close>
  bytes on.
\<close>

definition advance :: "nat \<Rightarrow> bitfile \<Rightarrow> bitfile" where
  "advance n f = \<lparr>consumed = rev (take n (rest f)) @ consumed f, rest = drop n (rest f)\<rparr>"

fun words_of :: "byte list \<Rightarrow> int list list" where
  "words_of (b0 # b1 # b2 # b3 # r) = word_bits [uint b0, uint b1, uint b2, uint b3] # words_of r"
| "words_of _ = []"

text \<open>The test of the FDRI write idiom in the packet loop.\<close>

definition fdri_write_setup :: "int list \<Rightarrow> bool" where
  "fdri_write_setup word \<longleftrightarrow>
     type_1_header word \<and> packet_1_opcode word = 2 \<and> packet_1_addr word = 2 \<and> packet_1_length word = 0"

text \<open>
  The bits the decoder is to emit, as the specification words it: frame \<open>i\<close> of the
  frame list starts a new row when its address bits 17..22 differ from those of frame
  \<open>i - 1\<close>; the words of frame \<open>i\<close> are the 101 words that follow the words of the
  frames before it and the 202 words skipped at each new row up to frame \<open>i\<close>; one entry
  is emitted for every bit equal to 1 of these words, but for bits 0..12 of word 50, in
  the order of frames, then word offsets, then bit offsets.
\<close>

definition row_change :: "frame list \<Rightarrow> nat \<Rightarrow> bool" where
  "row_change frames i \<longleftrightarrow>
     0 < i \<and> py_slice 17 23 (snd (frames ! (i - 1))) \<noteq> py_slice 17 23 (snd (frames ! i))"

definition frame_start :: "frame list \<Rightarrow> nat \<Rightarrow> nat" where
  "frame_start frames i = 101 * i + 202 * length (filter (row_change frames) [0..<Suc i])"

definition emitted_bits :: "frame list \<Rightarrow> int list list \<Rightarrow> string list" where
  "emitted_bits frames ws =
     concat (map (\<lambda>i.
       concat (map (\<lambda>word_offset.
         concat (map (\<lambda>bit_offset.
           if ws ! (frame_start frames i + word_offset) ! bit_offset = 1
              \<and> \<not> (word_offset = 50 \<and> bit_offset \<le> 12)
           then [bit_name (fst (frames ! i)) word_offset bit_offset]
           else [])
         [0..<32]))
       [0..<101]))
     [0..<length frames])"

text \<open>The entries one word, and the 101 words of one frame, add to the bit list.\<close>

definition word_high_bits :: "string \<Rightarrow> nat \<Rightarrow> int list \<Rightarrow> string list" where
  "word_high_bits hex_addr word_offset word =
     concat (map (\<lambda>bit_offset.
        if word ! bit_offset = 1 \<and> \<not> (word_offset = 50 \<and> bit_offset \<le> 12)
        then [bit_name hex_addr word_offset bit_offset] else [])
      [0..<length word])"

definition frame_high_bits :: "string \<Rightarrow> int list list \<Rightarrow> string list" where
  "frame_high_bits hex ws = concat (map (\<lambda>j. word_high_bits hex j (ws ! j)) [0..<101])"

text \<open>
  The words the walk over a frame list reads, and the entries it adds, by recursion over the
  list as the loop runs: \<open>prev\<close> is the frame before the first one of the list.
\<close>

definition skip_words :: "frame \<Rightarrow> frame \<Rightarrow> nat" where
  "skip_words prev_frame frame =
     (if py_slice 17 23 (snd prev_frame) \<noteq> py_slice 17 23 (snd frame) then 202 else 0)"

fun walk_used :: "frame \<Rightarrow> frame list \<Rightarrow> nat" where
  "walk_used prev [] = 0"
| "walk_used prev (frame # frames) = skip_words prev frame + 101 + walk_used frame frames"

fun walk_bits :: "frame \<Rightarrow> frame list \<Rightarrow> int list list \<Rightarrow> string list" where
  "walk_bits prev [] ws = []"
| "walk_bits prev (frame # frames) ws =
     frame_high_bits (fst frame) (drop (skip_words prev frame) ws)
       @ walk_bits frame frames (drop (skip_words prev frame + 101) ws)"

text \<open>The words read before frame \<open>i\<close> is reached, and the entries of frame \<open>i\<close>.\<close>

definition words_before :: "frame list \<Rightarrow> nat \<Rightarrow> nat" where
  "words_before frames i = 101 * i + 202 * length (filter (row_change frames) [0..<i])"

definition frame_entries :: "frame list \<Rightarrow> int list list \<Rightarrow> nat \<Rightarrow> string list" where
  "frame_entries frames ws i =
     concat (map (\<lambda>word_offset.
         concat (map (\<lambda>bit_offset.
           if ws ! (frame_start frames i + word_offset) ! bit_offset = 1
              \<and> \<not> (word_offset = 50 \<and> bit_offset \<le> 12)
           then [bit_name (fst (frames ! i)) word_offset bit_offset]
           else [])
         [0..<32]))
       [0..<101])"

text \<open>The entries of a run of words at the word offsets \<open>n, n + 1, \<dots>\<close>.\<close>

definition enum_high_bits :: "string \<Rightarrow> nat \<Rightarrow> int list list \<Rightarrow> string list" where
  "enum_high_bits hex n ws = concat (map (\<lambda>(j, w). word_high_bits hex j w) (enumerate n ws))"

text \<open>
  A well-formed frame address: 32 bits, each 0 or 1, the reserved bits 26..31 zero; and a
  frame whose first component is the hexadecimal form of its address.
\<close>

definition addr_ok :: "int list \<Rightarrow> bool" where
  "addr_ok a \<longleftrightarrow> length a = 32 \<and> set a \<subseteq> {0, 1} \<and> drop 26 a = replicate 6 0"

definition frame_ok :: "frame \<Rightarrow> bool" where
  "frame_ok fr \<longleftrightarrow> fst fr = frame_addr_hex (snd fr) \<and> addr_ok (snd fr)"

text \<open>The \<open>k\<close> hexadecimal digits of \<open>n\<close>, the most significant first.\<close>

fun fixed_hex :: "nat \<Rightarrow> nat \<Rightarrow> string" where
  "fixed_hex 0 n = []"
| "fixed_hex (Suc k) n = fixed_hex k (n div 16) @ [hex_char (n mod 16)]"

section \<open>Sample inputs\<close>

text \<open>
  A frame list of two frames in different rows, and a payload for it: the 101 words of the
  first frame (word 0 is \<open>0x00000005\<close>, word 50 is \<open>0xFFFFFFFF\<close>), the 202 words
  skipped at the row boundary (the first is \<open>0xFFFFFFFF\<close>), the 101 words of the second
  frame (word 100 is \<open>0x80000000\<close>), and three more bytes. The declared payload length is
  606 words: those 404 and the two dummy frames.
\<close>

definition sample_frames :: "frame list" where
  "sample_frames = [(''00000000'', replicate 32 0), (''00020000'', (replicate 32 0)[17 := 1])]"

definition sample_payload :: "byte list" where
  "sample_payload =
     [0x00, 0x00, 0x00, 0x05] @ replicate (4 * 49) 0 @ [0xFF, 0xFF, 0xFF, 0xFF] @ replicate (4 * 50) 0
     @ [0xFF, 0xFF, 0xFF, 0xFF] @ replicate (4 * 201) 0
     @ replicate (4 * 100) 0 @ [0x80, 0x00, 0x00, 0x00]
     @ [1, 2, 3]"

definition sample_bits :: "string list" where
  "sample_bits =
     [''bit_00000000_000_00'', ''bit_00000000_000_02'',
      ''bit_00000000_050_13'', ''bit_00000000_050_14'', ''bit_00000000_050_15'',
      ''bit_00000000_050_16'', ''bit_00000000_050_17'', ''bit_00000000_050_18'',
      ''bit_00000000_050_19'', ''bit_00000000_050_20'', ''bit_00000000_050_21'',
      ''bit_00000000_050_22'', ''bit_00000000_050_23'', ''bit_00000000_050_24'',
      ''bit_00000000_050_25'', ''bit_00000000_050_26'', ''bit_00000000_050_27'',
      ''bit_00000000_050_28'', ''bit_00000000_050_29'', ''bit_00000000_050_30'',
      ''bit_00000000_050_31'', ''bit_00020000_100_31'']"

text \<open>
  Two descriptors, as the lines of \<^verbatim>\<open>part.json\<close>: one with the rows 0 and 32 (one column of
  one frame each), one with a single row whose columns are listed as 1 (one frame) and 0
  (two frames); and the files of a part \<open>xc7a35t\<close> holding such a descriptor.
\<close>

definition nl :: "string \<Rightarrow> string" where
  "nl s = s @ [CHR 0x0A]"

definition wrapped_rows :: "string list" where
  "wrapped_rows = map nl
     [''{'',
      ''\"global_clock_regions\": {'',
      ''\"top\": {'',
      ''\"rows\": {'',
      ''\"0\": {'',
      ''\"configuration_buses\": {'',
      ''\"CLB_IO_CLK\": {'',
      ''\"configuration_columns\": {'',
      ''\"0\": {'',
      ''\"frame_count\": 1'',
      ''}'',
      ''}'',
      ''}'',
      ''}'',
      ''},'',
      ''\"32\": {'',
      ''\"configuration_buses\": {'',
      ''\"CLB_IO_CLK\": {'',
      ''\"configuration_columns\": {'',
      ''\"0\": {'',
      ''\"frame_count\": 1'',
      ''}'',
      ''}'',
      ''}'',
      ''}'',
      ''}'',
      ''}'',
      ''}'',
      ''}'',
      ''}'']"

definition two_columns :: "string list" where
  "two_columns = map nl
     [''{'',
      ''\"global_clock_regions\": {'',
      ''\"top\": {'',
      ''\"rows\": {'',
      ''\"0\": {'',
      ''\"configuration_buses\": {'',
      ''\"CLB_IO_CLK\": {'',
      ''\"configuration_columns\": {'',
      ''\"1\": {'',
      ''\"frame_count\": 1'',
      ''},'',
      ''\"0\": {'',
      ''\"frame_count\": 2'',
      ''}'',
      ''}'',
      ''}'',
      ''}'',
      ''}'',
      ''}'',
      ''}'',
      ''}'',
      ''}'']"

definition sample_files :: "string list \<Rightarrow> string \<rightharpoonup> string list" where
  "sample_files p_j = (\<lambda>path. if path = ''db/artix7/xc7a35t/part.json'' then Some p_j else None)"

text \<open>
  Bitstreams whose part field is \<open>7vx485t\<close> (a Virtex-7 part) and \<open>xc6slx4\<close>, followed by
  the sync word, the FDRI write idiom and a Type 2 header.
\<close>

definition header_fields :: "string \<Rightarrow> byte list" where
  "header_fields part_field =
     [0, 0,  0, 1, 97,  0, 0,  98,  0, of_nat (length part_field)] @ map of_char part_field"

definition virtex7_bitstream :: "byte list" where
  "virtex7_bitstream =
     header_fields (''7vx485t'' @ [CHR 0x00])
     @ [0xAA, 0x99, 0x55, 0x66,  0x30, 0x00, 0x40, 0x00,  0x50, 0x00, 0x00, 0xCA]"

definition spartan6_bitstream :: "byte list" where
  "spartan6_bitstream =
     header_fields (''xc6slx4'' @ [CHR 0x00])
     @ [0xAA, 0x99, 0x55, 0x66,  0x30, 0x00, 0x40, 0x00,  0x50, 0x00, 0x00, 0xCA]"

section \<open>Properties\<close>

subsection \<open>Words and their values\<close>

lemma bits_to_int_append_gen:
  "foldl (\<lambda>int_value (i, bit). int_value + bit * 2 ^ i) a (enumerate n xs) = a + 2 ^ n * bits_to_int xs"
  unfolding bits_to_int_def
proof (induction xs arbitrary: a n)
  case Nil
  then show ?case by simp
next
  case (Cons x xs)
  show ?case
    apply (simp)
    apply (subst Cons.IH)
    apply (subst Cons.IH[of _ "Suc 0"])
    apply (simp add: algebra_simps)
    done
qed

lemma bits_to_int_Nil [simp]: "bits_to_int [] = 0"
  by (simp add: bits_to_int_def)

lemma bits_to_int_Cons: "bits_to_int (x # xs) = x + 2 * bits_to_int xs"
  using bits_to_int_append_gen[of x "Suc 0" xs]
  by (simp add: bits_to_int_def)

lemma bits_to_int_append:
  "bits_to_int (xs @ ys) = bits_to_int xs + 2 ^ length xs * bits_to_int ys"
  by (induction xs) (simp_all add: bits_to_int_Cons algebra_simps)

lemma bit_and_one: "drop_bit i (x::int) AND 1 = of_bool (bit x i)"
  by (simp add: and_one_eq bit_iff_odd_drop_bit mod_2_eq_odd)

lemma byte_bits_value:
  "bits_to_int (map (\<lambda>i. drop_bit i x AND 1) [0..<n]) = take_bit n (x::int)"
proof (induction n)
  case 0
  then show ?case by simp
next
  case (Suc n)
  then show ?case
    by (simp add: bits_to_int_append bits_to_int_Cons bit_and_one take_bit_Suc_from_most)
qed

lemma word_bits_value:
  "bits_to_int (word_bits [uint (b0::byte), uint (b1::byte), uint (b2::byte), uint (b3::byte)])
     = uint b0 * 2 ^ 24 + uint b1 * 2 ^ 16 + uint b2 * 2 ^ 8 + uint b3"
proof -
  have tb: "take_bit 8 (uint (b::byte)) = uint b" for b
    by (rule take_bit_int_eq_self) (use uint_bounded[of b] in simp_all)
  show ?thesis
    unfolding word_bits_def
    by (simp add: bits_to_int_append byte_bits_value tb del: upt_Suc)
qed

lemma nth_concat_const:
  "\<forall>xs \<in> set xss. length xs = n \<Longrightarrow> k < n * length xss \<Longrightarrow> 0 < n \<Longrightarrow>
   concat xss ! k = (xss ! (k div n)) ! (k mod n)"
proof (induction xss arbitrary: k)
  case Nil
  then show ?case by simp
next
  case (Cons xs xss)
  show ?case
  proof (cases "k < n")
    case True
    then show ?thesis using Cons.prems by (simp add: nth_append)
  next
    case False
    then have "k - n < n * length xss" using Cons.prems by simp
    then have "concat xss ! (k - n) = (xss ! ((k - n) div n)) ! ((k - n) mod n)"
      using Cons.IH Cons.prems by simp
    moreover have "k div n = Suc ((k - n) div n)" using False Cons.prems
      by (simp add: le_div_geq)
    moreover have "k mod n = (k - n) mod n" using False
      by (simp add: le_mod_geq)
    ultimately show ?thesis using False Cons.prems by (simp add: nth_append)
  qed
qed

lemma word_bits_nth:
  assumes "k < 32"
  shows "word_bits [v0, v1, v2, v3] ! k = drop_bit (k mod 8) ([v0, v1, v2, v3] ! (3 - k div 8)) AND 1"
proof -
  have d: "k div 8 < 4" using assms by simp
  have "word_bits [v0, v1, v2, v3] ! k
      = (map (\<lambda>byte. map (\<lambda>i. drop_bit i byte AND 1) [0..<8]) [v3, v2, v1, v0] ! (k div 8)) ! (k mod 8)"
    unfolding word_bits_def
    by (subst nth_concat_const[where n = 8]) (use assms in \<open>simp_all del: upt_Suc\<close>)
  also have "\<dots> = map (\<lambda>i. drop_bit i ([v3, v2, v1, v0] ! (k div 8)) AND 1) [0..<8] ! (k mod 8)"
    using d by (subst nth_map) simp_all
  also have "\<dots> = drop_bit (k mod 8) ([v3, v2, v1, v0] ! (k div 8)) AND 1"
    by (subst nth_map) (simp_all del: upt_Suc)
  also have "[v3, v2, v1, v0] ! (k div 8) = [v0, v1, v2, v3] ! (3 - k div 8)"
  proof -
    have "k div 8 = 0 \<or> k div 8 = 1 \<or> k div 8 = 2 \<or> k div 8 = 3"
      using d by linarith
    then show ?thesis by (elim disjE) simp_all
  qed
  finally show ?thesis .
qed

subsection \<open>Reading from the cursor\<close>

lemma advance_0 [simp]: "advance 0 f = f"
  by (simp add: advance_def)

lemma advance_advance: "advance m (advance n f) = advance (n + m) f"
proof -
  have "take (n + m) (rest f) = take n (rest f) @ take m (drop n (rest f))"
    by (simp add: take_add)
  moreover have "drop m (drop n (rest f)) = drop (n + m) (rest f)"
    by (simp add: add.commute)
  ultimately show ?thesis by (simp add: advance_def)
qed

lemma rest_advance [simp]: "rest (advance n f) = drop n (rest f)"
  by (simp add: advance_def)

lemma consumed_advance [simp]: "consumed (advance n f) = rev (take n (rest f)) @ consumed f"
  by (simp add: advance_def)

lemma contents_advance [simp]: "contents (advance n f) = contents f"
  by (simp add: advance_def contents_def)

lemma read_ints_eq:
  "read_ints n f =
     (if n \<le> length (rest f) then Inr (map uint (take n (rest f)), advance n f) else Inl TypeError)"
proof (induction n arbitrary: f)
  case 0
  then show ?case by simp
next
  case (Suc n)
  show ?case
  proof (cases "rest f")
    case Nil
    then show ?thesis by (simp add: read_byte_def py_ord_def)
  next
    case (Cons b bs)
    then show ?thesis
      by (simp add: read_byte_def py_ord_def Suc.IH advance_def)
  qed
qed

lemma parse_word_eq:
  "parse_word f =
     (if 4 \<le> length (rest f) then Inr (word_bits (map uint (take 4 (rest f))), advance 4 f)
      else Inl TypeError)"
  by (simp add: parse_word_def read_ints_eq)

lemma words_of_length: "length (words_of bs) = length bs div 4"
  by (induction bs rule: words_of.induct) simp_all

lemma words_of_drop: "words_of (drop (4 * n) bs) = drop n (words_of bs)"
proof (induction n arbitrary: bs)
  case 0
  then show ?case by simp
next
  case (Suc n)
  show ?case
  proof (cases bs rule: words_of.cases)
    case (1 b0 b1 b2 b3 r)
    have "4 * Suc n = Suc (Suc (Suc (Suc (4 * n))))" by simp
    then show ?thesis using 1 Suc.IH[of r] by (simp del: mult_Suc_right)
  qed (simp_all)
qed

lemma words_of_hd:
  "4 \<le> length bs \<Longrightarrow> words_of bs = word_bits (map uint (take 4 bs)) # words_of (drop 4 bs)"
  by (cases bs rule: words_of.cases) simp_all

lemma read_words_eq:
  "read_words n f =
     (if 4 * n \<le> length (rest f) then Inr (take n (words_of (rest f)), advance (4 * n) f)
      else Inl TypeError)"
proof (induction n arbitrary: f)
  case 0
  then show ?case by simp
next
  case (Suc n)
  show ?case
  proof (cases "4 \<le> length (rest f)")
    case False
    then show ?thesis by (simp add: parse_word_eq)
  next
    case True
    have "4 * Suc n \<le> length (rest f) \<longleftrightarrow> 4 * n \<le> length (rest f) - 4"
      using True by auto
    moreover have "advance (4 + 4 * n) f = advance (4 * Suc n) f" by simp
    ultimately show ?thesis using True
      by (simp add: parse_word_eq Suc.IH words_of_hd advance_advance del: mult_Suc_right)
  qed
qed


subsection \<open>The packet loop\<close>

lemma shift_sum_gen:
  "sum_list (map (\<lambda>(i, b). push_bit i b) (enumerate n bs)) = 2 ^ n * bits_to_int bs"
proof (induction bs arbitrary: n)
  case Nil
  then show ?case by simp
next
  case (Cons b bs)
  then show ?case
    by (simp add: bits_to_int_Cons push_bit_eq_mult algebra_simps)
qed

lemma shift_sum_eq: "shift_sum bs = bits_to_int bs"
  using shift_sum_gen[of 0 bs] by (simp add: shift_sum_def)

lemma scan_word_cases:
  "scan_word fl f =
     (if length (rest f) < 4 then Inl TypeError
      else let word = hd (words_of (rest f)); f1 = advance 4 f in
        if type_2_header word \<and> fl then Inr (Found (shift_sum (take 27 word)) f1)
        else if type_1_header word then
          (if 4 * nat (packet_1_length word) \<le> length (rest f1)
           then Inr (Continue (packet_1_opcode word = 2 \<and> packet_1_addr word = 2 \<and> packet_1_length word = 0)
                  (advance (4 + 4 * nat (packet_1_length word)) f))
           else Inl TypeError)
        else Inr (Continue False f1))"
  by (simp add: scan_word_def parse_word_eq read_words_eq words_of_hd Let_def advance_advance)

lemma scan_word_Found:
  assumes "scan_word fl f = Inr (Found m g)"
  shows "4 \<le> length (rest f) \<and> fl \<and> g = advance 4 f
     \<and> type_2_header (hd (words_of (rest f)))
     \<and> m = bits_to_int (take 27 (hd (words_of (rest f))))"
  using assms by (simp add: scan_word_cases Let_def shift_sum_eq split: if_splits)

lemma scan_word_Continue:
  assumes "scan_word fl f = Inr (Continue fl' g)"
  shows "\<exists>L. g = advance (4 * Suc L) f \<and> 4 * Suc L \<le> length (rest f)
     \<and> (fl' \<longrightarrow> L = 0 \<and> fdri_write_setup (hd (words_of (rest f))))"
proof -
  let ?w = "hd (words_of (rest f))"
  show ?thesis
  proof (cases "type_1_header ?w")
    case True
    then show ?thesis using assms
      by (intro exI[of _ "nat (packet_1_length ?w)"])
        (auto simp: scan_word_cases Let_def fdri_write_setup_def split: if_splits)
  next
    case False
    then show ?thesis using assms
      by (intro exI[of _ 0]) (auto simp: scan_word_cases Let_def split: if_splits)
  qed
qed

lemma words_of_nth_0: "4 \<le> length bs \<Longrightarrow> words_of bs ! 0 = hd (words_of bs)"
  by (simp add: words_of_hd)

lemma packet_scan_sound:
  "packet_scan fl f = Inr (n, f') \<Longrightarrow>
   \<exists>k. k < length (words_of (rest f)) \<and> f' = advance (4 * Suc k) f
     \<and> type_2_header (words_of (rest f) ! k)
     \<and> n = bits_to_int (take 27 (words_of (rest f) ! k))
     \<and> (if k = 0 then fl else fdri_write_setup (words_of (rest f) ! (k - 1)))"
proof (induction fl f rule: packet_scan.induct)
  case (1 fl f)
  show ?case
  proof (cases "scan_word fl f")
    case (Inl e)
    then show ?thesis using "1.prems" by (subst (asm) packet_scan.simps) simp
  next
    case (Inr out)
    show ?thesis
    proof (cases out)
      case (Found m g)
      with Inr "1.prems" have eq: "m = n" "g = f'"
        by (subst (asm) packet_scan.simps, simp)+
      from scan_word_Found[OF Inr[unfolded Found]] eq
      have "4 \<le> length (rest f)" "fl" "f' = advance 4 f"
        "type_2_header (hd (words_of (rest f)))"
        "n = bits_to_int (take 27 (hd (words_of (rest f))))"
        by simp_all
      then show ?thesis
        by (intro exI[of _ 0]) (simp add: words_of_length words_of_nth_0)
    next
      case (Continue fl' g)
      with Inr "1.prems" have run: "packet_scan fl' g = Inr (n, f')"
        by (subst (asm) packet_scan.simps) simp
      from "1.IH"[OF Inr Continue run]
      obtain k' where k': "k' < length (words_of (rest g))" "f' = advance (4 * Suc k') g"
        "type_2_header (words_of (rest g) ! k')"
        "n = bits_to_int (take 27 (words_of (rest g) ! k'))"
        "if k' = 0 then fl' else fdri_write_setup (words_of (rest g) ! (k' - 1))"
        by blast
      from scan_word_Continue[OF Inr[unfolded Continue]]
      obtain L where L: "g = advance (4 * Suc L) f" "4 * Suc L \<le> length (rest f)"
        "fl' \<longrightarrow> L = 0 \<and> fdri_write_setup (hd (words_of (rest f)))"
        by blast
      have ws: "words_of (rest g) = drop (Suc L) (words_of (rest f))"
        using L(1) by (simp add: words_of_drop del: mult_Suc_right)
      have len: "Suc L + k' < length (words_of (rest f))"
        using k'(1) ws by simp
      have nth: "words_of (rest g) ! j = words_of (rest f) ! (Suc L + j)" for j
        using ws len by simp
      have "4 * Suc L + 4 * Suc k' = 4 * Suc (Suc L + k')" by simp
      then have adv: "f' = advance (4 * Suc (Suc L + k')) f"
        using k'(2) L(1) by (simp only: advance_advance)
      have prev: "fdri_write_setup (words_of (rest f) ! (Suc L + k' - 1))"
      proof (cases "k' = 0")
        case True
        with k'(5) L(3) have "L = 0" "fdri_write_setup (hd (words_of (rest f)))" by simp_all
        then show ?thesis using True L(2) by (simp add: words_of_nth_0)
      next
        case False
        then have "Suc L + k' - 1 = Suc L + (k' - 1)" by simp
        then show ?thesis using k'(5) False nth[of "k' - 1"] by simp
      qed
      show ?thesis
        using len adv k'(3,4) prev nth[of k']
        by (intro exI[of _ "Suc L + k'"]) simp
    qed
  qed
qed

subsection \<open>The header fields and the synchronisation loop\<close>

lemma read_byte_advance: "\<exists>n. snd (read_byte f) = advance n f"
proof (cases "rest f")
  case Nil
  then show ?thesis by (intro exI[of _ 0]) (simp add: read_byte_def)
next
  case (Cons b bs)
  then show ?thesis by (intro exI[of _ 1]) (simp add: read_byte_def advance_def)
qed

lemma read_bytes_ascii_advance:
  assumes "read_bytes_ascii f = Inr (s, f')"
  shows "\<exists>n. f' = advance n f"
  using assms
  by (auto simp: read_bytes_ascii_def read_ints_eq Let_def advance_advance split: if_splits)

lemma sync_search_advance:
  "sync_search f = Inr f' \<Longrightarrow> \<exists>n. f' = advance n f"
proof (induction f rule: sync_search.induct)
  case (1 f)
  show ?case
  proof (cases "rest f")
    case Nil
    then show ?thesis using "1.prems"
      by (subst (asm) sync_search.simps) (simp add: read_byte_def py_ord_def)
  next
    case (Cons b bs)
    let ?f1 = "\<lparr>consumed = b # consumed f, rest = bs\<rparr>"
    have rb: "read_byte f = ([b], ?f1)" using Cons by (simp add: read_byte_def)
    have f1: "?f1 = advance 1 f" using Cons by (simp add: advance_def)
    show ?thesis
    proof (cases "uint b = 170")
      case False
      then have "sync_search f = sync_search ?f1"
        by (subst sync_search.simps) (simp add: rb py_ord_def)
      then obtain n where "f' = advance n ?f1"
        using "1.IH"(2)[of "[b]" ?f1 "uint b"] rb False "1.prems"
        by (auto simp: py_ord_def)
      then show ?thesis using f1 by (auto simp: advance_advance)
    next
      case True
      have sb: "seek_back ?f1 = Inr f" by (simp add: seek_back_def Cons[symmetric])
      show ?thesis
      proof (cases "parse_word f")
        case (Inl e)
        then show ?thesis using "1.prems" True
          by (subst (asm) sync_search.simps) (simp add: rb py_ord_def sb)
      next
        case (Inr p)
        obtain w f3 where p: "p = (w, f3)" by (cases p)
        have f3: "f3 = advance 4 f" using Inr p by (simp add: parse_word_eq split: if_splits)
        show ?thesis
        proof (cases "bits_to_int w = SYNC_WORD")
          case True
          then have "sync_search f = Inr f3" using \<open>uint b = 170\<close> Inr p
            by (subst sync_search.simps) (simp add: rb py_ord_def sb)
          then show ?thesis using "1.prems" f3 by auto
        next
          case False
          then have "sync_search f = sync_search f3" using \<open>uint b = 170\<close> Inr p
            by (subst sync_search.simps) (simp add: rb py_ord_def sb)
          moreover have "\<exists>n. f' = advance n f3" if run: "sync_search f3 = Inr f'"
          proof (rule "1.IH"(1)[OF rb[symmetric] _ \<open>uint b = 170\<close> sb Inr p[symmetric] False run])
            show "py_ord [b] = Inr (uint b)" by (simp add: py_ord_def)
          qed
          ultimately show ?thesis using "1.prems" f3 by (auto simp: advance_advance)
        qed
      qed
    qed
  qed
qed

lemma words_of_nth:
  "k < length (words_of bs) \<Longrightarrow>
   words_of bs ! k = word_bits (map uint (take 4 (drop (4 * k) bs))) \<and> 4 * Suc k \<le> length bs"
proof -
  assume k: "k < length (words_of bs)"
  then have len: "4 * Suc k \<le> length bs" by (simp add: words_of_length) 
  have "words_of bs ! k = hd (drop k (words_of bs))"
    using k by (simp add: hd_drop_conv_nth)
  also have "\<dots> = hd (words_of (drop (4 * k) bs))" by (simp add: words_of_drop)
  also have "\<dots> = word_bits (map uint (take 4 (drop (4 * k) bs)))"
    using len by (subst words_of_hd) simp_all
  finally show ?thesis using len by simp
qed

subsection \<open>parse\_word\<close>

lemma length_word_bits: "length (word_bits vs) = 8 * length vs"
  unfolding word_bits_def
  by (induction vs) (simp_all add: length_concat comp_def del: upt_Suc)

text \<open>
  Claim C4. For any four bytes \<open>b0, b1, b2, b3\<close> read in that order, \<open>parse_word\<close>
  returns a word of 32 bits whose bit \<open>k\<close> (bit 0 the least significant) is bit
  \<open>k mod 8\<close> of byte \<open>3 - k div 8\<close>; its value under \<open>bits_to_int\<close> is
  \<open>b0 * 2^24 + b1 * 2^16 + b2 * 2^8 + b3\<close>, and the cursor has moved four bytes on.
\<close>

theorem parse_word_bit_order:
  assumes "rest f = b0 # b1 # b2 # b3 # r"
  shows "\<exists>w. parse_word f = Inr (w, \<lparr>consumed = b3 # b2 # b1 # b0 # consumed f, rest = r\<rparr>)
     \<and> length w = 32
     \<and> (\<forall>k<32. w ! k = of_bool (bit ([b0, b1, b2, b3] ! (3 - k div 8)) (k mod 8)))
     \<and> bits_to_int w = uint b0 * 2 ^ 24 + uint b1 * 2 ^ 16 + uint b2 * 2 ^ 8 + uint b3"
proof -
  let ?w = "word_bits [uint b0, uint b1, uint b2, uint b3]"
  have run: "parse_word f = Inr (?w, \<lparr>consumed = b3 # b2 # b1 # b0 # consumed f, rest = r\<rparr>)"
    using assms by (simp add: parse_word_eq advance_def)
  have len: "length ?w = 32"
    by (simp add: length_word_bits)
  have nth: "?w ! k = of_bool (bit ([b0, b1, b2, b3] ! (3 - k div 8)) (k mod 8))" if "k < 32" for k
  proof -
    have "k div 8 = 0 \<or> k div 8 = 1 \<or> k div 8 = 2 \<or> k div 8 = 3"
      using that by linarith
    then have "[uint b0, uint b1, uint b2, uint b3] ! (3 - k div 8) = uint ([b0, b1, b2, b3] ! (3 - k div 8))"
      by (elim disjE) simp_all
    then show ?thesis
      using word_bits_nth[OF that, of "uint b0" "uint b1" "uint b2" "uint b3"]
      by (simp add: bit_and_one bit_uint_iff)
  qed
  show ?thesis
    using run len nth word_bits_value[of b0 b1 b2 b3] by blast
qed

text \<open>The sync word \<open>0xAA995566\<close>, read from its four bytes.\<close>

theorem parse_word_bit_order_witness:
  "\<exists>w. parse_word \<lparr>consumed = [], rest = [0xAA, 0x99, 0x55, 0x66, 0x01]\<rparr>
         = Inr (w, \<lparr>consumed = [0x66, 0x55, 0x99, 0xAA], rest = [0x01]\<rparr>)
     \<and> length w = 32 \<and> w ! 0 = 0 \<and> w ! 1 = 1 \<and> w ! 8 = 1 \<and> w ! 31 = 1 \<and> w ! 30 = 0
     \<and> bits_to_int w = 2862175590"
proof -
  obtain w where w: "parse_word \<lparr>consumed = [], rest = [0xAA, 0x99, 0x55, 0x66, 0x01]\<rparr>
         = Inr (w, \<lparr>consumed = [0x66, 0x55, 0x99, 0xAA], rest = [0x01]\<rparr>)"
     "length w = 32"
     "\<forall>k<32. w ! k = of_bool (bit ([0xAA, 0x99, 0x55, 0x66 :: byte] ! (3 - k div 8)) (k mod 8))"
     "bits_to_int w = uint (0xAA :: byte) * 2 ^ 24 + uint (0x99 :: byte) * 2 ^ 16 + uint (0x55 :: byte) * 2 ^ 8 + uint (0x66 :: byte)"
    using parse_word_bit_order[of "\<lparr>consumed = [], rest = [0xAA, 0x99, 0x55, 0x66, 0x01]\<rparr>" "0xAA" "0x99" "0x55" "0x66" "[0x01]"]
    by auto
  have "w ! 0 = 0" "w ! 1 = 1" "w ! 8 = 1" "w ! 31 = 1" "w ! 30 = 0"
    using w(3) by simp_all
  then show ?thesis using w(1,2,4) by simp
qed

subsection \<open>find\_config\_packet: the packet loop and the FDRI write test\<close>

lemma find_config_packet_scan:
  assumes "find_config_packet f = Inr ((part, n), f')"
  shows "\<exists>m. packet_scan False (advance m f) = Inr (n, f')"
proof -
  from assms obtain s1 f1 s2 f2 s3 f3 s4 f5 f6 where
    r: "read_bytes_ascii f = Inr (s1, f1)" "read_bytes_ascii f1 = Inr (s2, f2)"
       "read_bytes_ascii f2 = Inr (s3, f3)" "read_bytes_ascii (snd (read_byte f3)) = Inr (s4, f5)"
       "sync_search f5 = Inr f6" "packet_scan False f6 = Inr (n, f')"
    by (auto simp: find_config_packet_def Let_def split: sum.splits prod.splits if_splits list.splits)
  from r(1) obtain n1 where "f1 = advance n1 f" using read_bytes_ascii_advance by blast
  moreover from r(2) obtain n2 where "f2 = advance n2 f1" using read_bytes_ascii_advance by blast
  moreover from r(3) obtain n3 where "f3 = advance n3 f2" using read_bytes_ascii_advance by blast
  moreover obtain n4 where "snd (read_byte f3) = advance n4 f3" using read_byte_advance by blast
  moreover from r(4) obtain n5 where "f5 = advance n5 (snd (read_byte f3))" using read_bytes_ascii_advance by blast
  moreover from r(5) obtain n6 where "f6 = advance n6 f5" using sync_search_advance by blast
  ultimately have "f6 = advance (n1 + n2 + n3 + n4 + n5 + n6) f"
    by (simp add: advance_advance)
  then show ?thesis using r(6) by blast
qed

lemma list8: "length t = 8 \<Longrightarrow> \<exists>b0 b1 b2 b3 b4 b5 b6 b7. t = [b0, b1, b2, b3, b4, b5, b6, b7]"
  by (simp add: eval_nat_numeral length_Suc_conv) blast

lemma type_headers_exclusive: "type_1_header w \<Longrightarrow> \<not> type_2_header w"
  by (simp add: type_1_header_def type_2_header_def)

lemma packet_scan_fdri_setup:
  "(find_config_packet f = Inr ((part, n), f') \<longrightarrow>
      (\<exists>b0 b1 b2 b3 b4 b5 b6 b7 c.
          consumed f' = [b7, b6, b5, b4, b3, b2, b1, b0] @ c
        \<and> contents f' = contents f
        \<and> fdri_write_setup (word_bits [uint b0, uint b1, uint b2, uint b3])
        \<and> type_2_header (word_bits [uint b4, uint b5, uint b6, uint b7])
        \<and> n = bits_to_int (take 27 (word_bits [uint b4, uint b5, uint b6, uint b7]))))
   \<and> (packet_scan fl g = Inr (m, g') \<longrightarrow>
      (\<exists>k. k < length (words_of (rest g)) \<and> g' = advance (4 * Suc k) g
        \<and> type_2_header (words_of (rest g) ! k)
        \<and> m = bits_to_int (take 27 (words_of (rest g) ! k))
        \<and> (if k = 0 then fl else fdri_write_setup (words_of (rest g) ! (k - 1)))))
   \<and> (parse_word h = Inr (w, h1) \<and> \<not> type_2_header w \<longrightarrow>
        packet_scan True h = packet_scan False h)
   \<and> (parse_word h = Inr (w, h1) \<and> type_1_header w \<and> \<not> fdri_write_setup w
        \<and> read_words (nat (packet_1_length w)) h1 = Inr (ws, h2) \<longrightarrow>
        packet_scan fl' h = packet_scan False h2)
   \<and> (rest q = a0 # a1 # a2 # a3 # a4 # a5 # a6 # a7 # r
        \<and> fdri_write_setup (word_bits [uint a0, uint a1, uint a2, uint a3])
        \<and> type_2_header (word_bits [uint a4, uint a5, uint a6, uint a7]) \<longrightarrow>
        packet_scan fl'' q
          = Inr (bits_to_int (take 27 (word_bits [uint a4, uint a5, uint a6, uint a7])),
                 \<lparr>consumed = a7 # a6 # a5 # a4 # a3 # a2 # a1 # a0 # consumed q, rest = r\<rparr>))"
proof (intro conjI impI)
  assume run: "find_config_packet f = Inr ((part, n), f')"
  then obtain m0 where scan: "packet_scan False (advance m0 f) = Inr (n, f')"
    using find_config_packet_scan by blast
  let ?g = "advance m0 f"
  let ?bs = "rest ?g"
  from packet_scan_sound[OF scan] obtain k where k:
    "k < length (words_of ?bs)" "f' = advance (4 * Suc k) ?g"
    "type_2_header (words_of ?bs ! k)" "n = bits_to_int (take 27 (words_of ?bs ! k))"
    "if k = 0 then False else fdri_write_setup (words_of ?bs ! (k - 1))"
    by blast
  from k(5) have k0: "k \<noteq> 0" and prev: "fdri_write_setup (words_of ?bs ! (k - 1))"
    by (auto split: if_splits)
  define j where "j = k - 1"
  have kj: "k = Suc j" using k0 by (simp add: j_def)
  have wk: "words_of ?bs ! k = word_bits (map uint (take 4 (drop (4 * k) ?bs)))"
    and lenk: "4 * Suc k \<le> length ?bs"
    using words_of_nth[OF k(1)] by simp_all
  have wj: "words_of ?bs ! j = word_bits (map uint (take 4 (drop (4 * j) ?bs)))"
    using words_of_nth[of j ?bs] k(1) kj by simp
  define t where "t = take 8 (drop (4 * j) ?bs)"
  have lent: "length t = 8" using lenk kj by (simp add: t_def)
  then obtain b0 b1 b2 b3 b4 b5 b6 b7 where t: "t = [b0, b1, b2, b3, b4, b5, b6, b7]"
    using list8 by blast
  have t1: "take 4 (drop (4 * j) ?bs) = take 4 t"
    by (simp add: t_def)
  have t2: "take 4 (drop (4 * k) ?bs) = take 4 (drop 4 t)"
  proof -
    have "drop (4 * k) ?bs = drop 4 (drop (4 * j) ?bs)"
      by (simp add: kj add.commute del: rest_advance)
    then show ?thesis by (simp add: t_def drop_take del: rest_advance)
  qed
  have tk: "take (4 * Suc k) ?bs = take (4 * j) ?bs @ t"
  proof -
    have "4 * Suc k = 4 * j + 8" by (simp add: kj)
    then show ?thesis by (simp only: take_add t_def)
  qed
  have cons: "consumed f' = rev t @ rev (take (4 * j) ?bs) @ consumed ?g"
    using k(2) tk by (simp del: mult_Suc_right)
  have "contents f' = contents f" using k(2) by simp
  moreover have "fdri_write_setup (word_bits [uint b0, uint b1, uint b2, uint b3])"
    using prev wj t1 t by (simp add: j_def)
  moreover have "type_2_header (word_bits [uint b4, uint b5, uint b6, uint b7])"
    using k(3) wk t2 t by simp
  moreover have "n = bits_to_int (take 27 (word_bits [uint b4, uint b5, uint b6, uint b7]))"
    using k(4) wk t2 t by simp
  moreover have "consumed f' = [b7, b6, b5, b4, b3, b2, b1, b0] @ (rev (take (4 * j) ?bs) @ consumed ?g)"
    using cons t by simp
  ultimately show "\<exists>b0 b1 b2 b3 b4 b5 b6 b7 c.
          consumed f' = [b7, b6, b5, b4, b3, b2, b1, b0] @ c
        \<and> contents f' = contents f
        \<and> fdri_write_setup (word_bits [uint b0, uint b1, uint b2, uint b3])
        \<and> type_2_header (word_bits [uint b4, uint b5, uint b6, uint b7])
        \<and> n = bits_to_int (take 27 (word_bits [uint b4, uint b5, uint b6, uint b7]))"
    by blast
next
  assume "packet_scan fl g = Inr (m, g')"
  then show "\<exists>k. k < length (words_of (rest g)) \<and> g' = advance (4 * Suc k) g
        \<and> type_2_header (words_of (rest g) ! k)
        \<and> m = bits_to_int (take 27 (words_of (rest g) ! k))
        \<and> (if k = 0 then fl else fdri_write_setup (words_of (rest g) ! (k - 1)))"
    by (rule packet_scan_sound)
next
  assume "parse_word h = Inr (w, h1) \<and> \<not> type_2_header w"
  then have "scan_word True h = scan_word False h"
    by (simp add: scan_word_def)
  then show "packet_scan True h = packet_scan False h"
    by (simp add: packet_scan.simps[of True h] packet_scan.simps[of False h])
next
  assume a: "parse_word h = Inr (w, h1) \<and> type_1_header w \<and> \<not> fdri_write_setup w
        \<and> read_words (nat (packet_1_length w)) h1 = Inr (ws, h2)"
  then have "scan_word fl' h = Inr (Continue False h2)"
    using type_headers_exclusive[of w] by (auto simp: scan_word_def fdri_write_setup_def)
  then show "packet_scan fl' h = packet_scan False h2"
    by (subst packet_scan.simps) simp
next
  assume a: "rest q = a0 # a1 # a2 # a3 # a4 # a5 # a6 # a7 # r
        \<and> fdri_write_setup (word_bits [uint a0, uint a1, uint a2, uint a3])
        \<and> type_2_header (word_bits [uint a4, uint a5, uint a6, uint a7])"
  let ?w1 = "word_bits [uint a0, uint a1, uint a2, uint a3]"
  let ?w2 = "word_bits [uint a4, uint a5, uint a6, uint a7]"
  let ?q1 = "\<lparr>consumed = a3 # a2 # a1 # a0 # consumed q, rest = a4 # a5 # a6 # a7 # r\<rparr>"
  let ?q2 = "\<lparr>consumed = a7 # a6 # a5 # a4 # a3 # a2 # a1 # a0 # consumed q, rest = r\<rparr>"
  have p1: "parse_word q = Inr (?w1, ?q1)" using a by (simp add: parse_word_eq advance_def)
  have p2: "parse_word ?q1 = Inr (?w2, ?q2)" by (simp add: parse_word_eq advance_def)
  have s1: "scan_word fl'' q = Inr (Continue True ?q1)"
    using a p1 type_headers_exclusive[of ?w1]
    by (simp add: scan_word_def fdri_write_setup_def)
  have s2: "scan_word True ?q1 = Inr (Found (bits_to_int (take 27 ?w2)) ?q2)"
    using a p2 by (simp add: scan_word_def shift_sum_eq)
  show "packet_scan fl'' q = Inr (bits_to_int (take 27 ?w2), ?q2)"
  proof -
    have "packet_scan fl'' q = packet_scan True ?q1"
      by (subst packet_scan.simps) (simp add: s1)
    also have "\<dots> = Inr (bits_to_int (take 27 ?w2), ?q2)"
      by (subst packet_scan.simps) (simp add: s2)
    finally show ?thesis .
  qed
qed

subsection \<open>find\_config\_packet: the header fields by bit positions\<close>

lemma bits_to_int_inj:
  "length xs = length ys \<Longrightarrow> set xs \<subseteq> {0, 1} \<Longrightarrow> set ys \<subseteq> {0, 1} \<Longrightarrow>
   bits_to_int xs = bits_to_int ys \<Longrightarrow> xs = ys"
proof (induction xs ys rule: list_induct2)
  case Nil
  then show ?case by simp
next
  case (Cons x xs y ys)
  have x: "x = 0 \<or> x = 1" and y: "y = 0 \<or> y = 1" using Cons.prems by auto
  have eq: "x + 2 * bits_to_int xs = y + 2 * bits_to_int ys"
    using Cons.prems(3) by (simp add: bits_to_int_Cons)
  have "x = y" using x y eq by presburger
  moreover have "bits_to_int xs = bits_to_int ys" using x y eq by presburger
  ultimately show ?case using Cons.IH Cons.prems by simp
qed

lemma word_bits_01: "set (word_bits vs) \<subseteq> {0, 1}"
proof -
  have "drop_bit i (v::int) AND 1 \<in> {0, 1}" for i v
    by (simp add: bit_and_one)
  then show ?thesis unfolding word_bits_def by auto
qed

lemma words_of_01: "w \<in> set (words_of bs) \<Longrightarrow> set w \<subseteq> {0, 1}"
  by (induction bs rule: words_of.induct) (use word_bits_01 in auto)

lemma field_value:
  assumes "set w \<subseteq> {0, 1}" "length (take n (drop m w)) = length v" "set v \<subseteq> {0, 1}"
  shows "bits_to_int (take n (drop m w)) = bits_to_int v \<longleftrightarrow> take n (drop m w) = v"
proof -
  have "set (take n (drop m w)) \<subseteq> {0, 1}"
    using assms(1) by (meson in_set_dropD in_set_takeD subset_iff)
  then show ?thesis using bits_to_int_inj[OF assms(2) _ assms(3)] by auto
qed

lemma fdri_write_setup_bits:
  assumes "length w = 32" "set w \<subseteq> {0, 1}"
  shows "fdri_write_setup w \<longleftrightarrow>
     take 11 w = replicate 11 0 \<and> drop 13 w = [0, 1] @ replicate 12 0 @ [0, 1] @ [1, 0, 0]"
proof -
  have t1: "type_1_header w \<longleftrightarrow> drop 29 w = [1, 0, 0]"
    using assms(1) by (simp add: type_1_header_def last3_def)
  have op: "packet_1_opcode w = 2 \<longleftrightarrow> take 2 (drop 27 w) = [0, 1]"
    using field_value[of w 2 27 "[0, 1]"] assms
    by (simp add: packet_1_opcode_def shift_sum_eq py_slice_def bits_to_int_Cons)
  have ad: "packet_1_addr w = 2 \<longleftrightarrow> take 14 (drop 13 w) = [0, 1] @ replicate 12 0"
  proof -
    have "bits_to_int ([0, 1] @ replicate 12 0) = 2"
      by (simp add: bits_to_int_Cons numeral_eq_Suc)
    then show ?thesis
      using field_value[of w 14 13 "[0, 1] @ replicate 12 0"] assms
      by (simp add: packet_1_addr_def shift_sum_eq py_slice_def)
  qed
  have ln: "packet_1_length w = 0 \<longleftrightarrow> take 11 w = replicate 11 0"
  proof -
    have "bits_to_int (replicate 11 0) = 0"
      by (simp add: bits_to_int_Cons numeral_eq_Suc)
    then show ?thesis
      using field_value[of w 11 0 "replicate 11 0"] assms
      by (simp add: packet_1_length_def shift_sum_eq)
  qed
  have split: "drop 13 w = take 14 (drop 13 w) @ take 2 (drop 27 w) @ drop 29 w"
  proof -
    have "drop 13 w = take 14 (drop 13 w) @ drop 14 (drop 13 w)"
      by (rule append_take_drop_id[symmetric])
    moreover have "drop 14 (drop 13 w) = drop 27 w" by simp
    moreover have "drop 27 w = take 2 (drop 27 w) @ drop 2 (drop 27 w)"
      by (rule append_take_drop_id[symmetric])
    moreover have "drop 2 (drop 27 w) = drop 29 w" by simp
    ultimately show ?thesis by metis
  qed
  have l1: "length (take 14 (drop 13 w)) = length ([0, 1] @ replicate 12 (0::int))"
    using assms(1) by simp
  have l2: "length (take 2 (drop 27 w)) = length [0, 1::int]"
    using assms(1) by simp
  have assoc: "[0, 1] @ replicate 12 0 @ [0, 1] @ [1, 0, (0::int)]
      = ([0, 1] @ replicate 12 0) @ [0, 1] @ [1, 0, 0]"
    by (simp only: append_assoc)
  have "drop 13 w = [0, 1] @ replicate 12 0 @ [0, 1] @ [1, 0, 0]
      \<longleftrightarrow> take 14 (drop 13 w) @ take 2 (drop 27 w) @ drop 29 w
          = ([0, 1] @ replicate 12 0) @ [0, 1] @ [1, 0, 0]"
    using split assoc by metis
  also have "\<dots> \<longleftrightarrow> take 14 (drop 13 w) = [0, 1] @ replicate 12 0
          \<and> take 2 (drop 27 w) @ drop 29 w = [0, 1] @ [1, 0, 0]"
    by (rule append_eq_append_conv[OF disjI1[OF l1]])
  also have "take 2 (drop 27 w) @ drop 29 w = [0, 1] @ [1, 0, 0]
          \<longleftrightarrow> take 2 (drop 27 w) = [0, 1] \<and> drop 29 w = [1, 0, 0]"
    by (rule append_eq_append_conv[OF disjI1[OF l2]])
  finally have "drop 13 w = [0, 1] @ replicate 12 0 @ [0, 1] @ [1, 0, 0]
      \<longleftrightarrow> take 14 (drop 13 w) = [0, 1] @ replicate 12 0 \<and> take 2 (drop 27 w) = [0, 1]
          \<and> drop 29 w = [1, 0, 0]" .
  then show ?thesis
    unfolding fdri_write_setup_def t1 op ad ln by auto
qed

lemma type_2_header_bits: "length w = 32 \<Longrightarrow> type_2_header w \<longleftrightarrow> drop 29 w = [0, 1, 0]"
  by (simp add: type_2_header_def last3_def)

lemma type_1_header_bits: "length w = 32 \<Longrightarrow> type_1_header w \<longleftrightarrow> drop 29 w = [1, 0, 0]"
  by (simp add: type_1_header_def last3_def)

text \<open>
  A small bitstream: the four header fields (the part field is \<open>"7\\0"\<close>), the sync
  word, and these packets: a Type 1 write of one word to register 4 with its payload word;
  a Type 1 write of length 0 to register 4 and a Type 2 header of length 17; a Type 1 read
  (opcode 1) of length 0 of register 2 and a Type 2 header of length 34; the FDRI write
  idiom (opcode 2, register 2, length 0) and a Type 2 header of length 202.
\<close>

definition sample_header :: "byte list" where
  "sample_header = [0, 0,  0, 1, 97,  0, 0,  98,  0, 2, 55, 0]"

definition sample_packets :: "byte list" where
  "sample_packets =
     [0x30, 0x00, 0x80, 0x01,  0x00, 0x00, 0x00, 0x07,
      0x30, 0x00, 0x80, 0x00,  0x50, 0x00, 0x00, 0x11,
      0x28, 0x00, 0x40, 0x00,  0x50, 0x00, 0x00, 0x22,
      0x30, 0x00, 0x40, 0x00,  0x50, 0x00, 0x00, 0xCA,  1, 2]"

definition sample_bitstream :: "byte list" where
  "sample_bitstream = sample_header @ [0xAA, 0x99, 0x55, 0x66] @ sample_packets"

subsection \<open>find\_config\_packet: the packet type tags\<close>

lemma last3_32:
  "length w = 32 \<Longrightarrow> last3 w = [w ! 29, w ! 30, w ! 31]"
proof -
  assume len: "length w = 32"
  have "drop 29 w = w ! 29 # drop 30 w" using len by (simp add: Cons_nth_drop_Suc[symmetric])
  moreover have "drop 30 w = w ! 30 # drop 31 w" using len by (simp add: Cons_nth_drop_Suc[symmetric])
  moreover have "drop 31 w = w ! 31 # drop 32 w" using len by (simp add: Cons_nth_drop_Suc[symmetric])
  ultimately show ?thesis using len by (simp add: last3_def)
qed

lemma parse_word_length: "parse_word f = Inr (w, f1) \<Longrightarrow> length w = 32"
  by (auto simp: parse_word_eq length_word_bits split: if_splits)

text \<open>
  Claim C5 (amended). The source compares \<^verbatim>\<open>word[-3:]\<close>, the list of bits 29, 30, 31 in
  that order, with \<^verbatim>\<open>[1, 0, 0]\<close> and \<^verbatim>\<open>[0, 1, 0]\<close>. So a word read by the packet loop is
  handled as a Type 1 header exactly when its bits 31, 30, 29 are 0, 0, 1 (and it is not
  accepted as the Type 2 header), and it is accepted as the Type 2 header exactly when its
  bits 31, 30, 29 are 0, 1, 0 and the FDRI flag is pending; any other word only clears the
  flag.
\<close>

theorem packet_header_tags:
  assumes "parse_word f = Inr (w, f1)"
  shows "(type_1_header w \<longleftrightarrow> w ! 31 = 0 \<and> w ! 30 = 0 \<and> w ! 29 = 1)
     \<and> (type_2_header w \<longleftrightarrow> w ! 31 = 0 \<and> w ! 30 = 1 \<and> w ! 29 = 0)
     \<and> scan_word fl f =
        (if (w ! 31 = 0 \<and> w ! 30 = 1 \<and> w ! 29 = 0) \<and> fl then
           Inr (Found (bits_to_int (take 27 w)) f1)
         else if w ! 31 = 0 \<and> w ! 30 = 0 \<and> w ! 29 = 1 then
           (case read_words (nat (packet_1_length w)) f1 of
              Inl e \<Rightarrow> Inl e
            | Inr (packet_1_data, f2) \<Rightarrow>
                Inr (Continue (packet_1_opcode w = 2 \<and> packet_1_addr w = 2
                               \<and> packet_1_length w = 0) f2))
         else Inr (Continue False f1))"
proof -
  have l3: "last3 w = [w ! 29, w ! 30, w ! 31]"
    using parse_word_length[OF assms] by (rule last3_32)
  have t1: "type_1_header w \<longleftrightarrow> w ! 31 = 0 \<and> w ! 30 = 0 \<and> w ! 29 = 1"
    by (auto simp: type_1_header_def l3)
  have t2: "type_2_header w \<longleftrightarrow> w ! 31 = 0 \<and> w ! 30 = 1 \<and> w ! 29 = 0"
    by (auto simp: type_2_header_def l3)
  show ?thesis
    unfolding t1[symmetric] t2[symmetric]
    using assms by (simp add: scan_word_def shift_sum_eq)
qed

text \<open>
  Two streams of a header word with length field 1 and one more word: the first with
  bits 31..29 = 1, 0, 0, the second with bits 31..29 = 0, 0, 1.
\<close>

definition tag_100_stream :: "byte list" where
  "tag_100_stream = [0x80, 0x00, 0x00, 0x01,  0x00, 0x00, 0x00, 0x00]"

definition tag_001_stream :: "byte list" where
  "tag_001_stream = [0x20, 0x00, 0x00, 0x01,  0x00, 0x00, 0x00, 0x00]"

text \<open>
  The word \<open>0x80000001\<close> has bits 31, 30, 29 equal to 1, 0, 0 and is not a Type 1 header
  for the source.
\<close>

theorem packet_header_tags_counterexample:
  "\<not> (type_1_header (word_bits [0x80, 0x00, 0x00, 0x01])
       \<longleftrightarrow> word_bits [0x80, 0x00, 0x00, 0x01] ! 31 = 1
         \<and> word_bits [0x80, 0x00, 0x00, 0x01] ! 30 = 0
         \<and> word_bits [0x80, 0x00, 0x00, 0x01] ! 29 = 0)"
  by code_simp

text \<open>
  The word \<open>0x20000001\<close> is a Type 1 header: its payload word is read too. After
  \<open>0x80000001\<close> the cursor has moved one word only.
\<close>

theorem packet_header_tags_witness:
  "parse_word \<lparr>consumed = [], rest = tag_001_stream\<rparr>
     = Inr (word_bits [0x20, 0x00, 0x00, 0x01], \<lparr>consumed = [0x01, 0x00, 0x00, 0x20], rest = [0, 0, 0, 0]\<rparr>)
   \<and> type_1_header (word_bits [0x20, 0x00, 0x00, 0x01])
   \<and> \<not> type_2_header (word_bits [0x20, 0x00, 0x00, 0x01])
   \<and> scan_word False \<lparr>consumed = [], rest = tag_001_stream\<rparr>
       = Inr (Continue False \<lparr>consumed = rev tag_001_stream, rest = []\<rparr>)
   \<and> scan_word False \<lparr>consumed = [], rest = tag_100_stream\<rparr>
       = Inr (Continue False \<lparr>consumed = [0x01, 0x00, 0x00, 0x80], rest = [0, 0, 0, 0]\<rparr>)"
proof -
  let ?f = "\<lparr>consumed = [], rest = tag_001_stream\<rparr>"
  let ?w = "word_bits [0x20, 0x00, 0x00, 0x01]"
  let ?f1 = "\<lparr>consumed = [0x01, 0x00, 0x00, 0x20], rest = [0, 0, 0, 0]\<rparr>"
  let ?g = "\<lparr>consumed = [], rest = tag_100_stream\<rparr>"
  let ?v = "word_bits [0x80, 0x00, 0x00, 0x01]"
  let ?g1 = "\<lparr>consumed = [0x01, 0x00, 0x00, 0x80], rest = [0, 0, 0, 0]\<rparr>"
  have p: "parse_word ?f = Inr (?w, ?f1)" by code_simp
  have q: "parse_word ?g = Inr (?v, ?g1)" by code_simp
  have bits: "?w ! 31 = 0" "?w ! 30 = 0" "?w ! 29 = 1" "?v ! 31 = 1"
    by code_simp+
  have rw: "read_words (nat (packet_1_length ?w)) ?f1 = Inr ([word_bits [0, 0, 0, 0]], \<lparr>consumed = rev tag_001_stream, rest = []\<rparr>)"
    by code_simp
  have len1: "packet_1_length ?w = 1" by code_simp
  from packet_header_tags[OF p, of False] bits rw len1
  have "type_1_header ?w" "\<not> type_2_header ?w"
    "scan_word False ?f = Inr (Continue False \<lparr>consumed = rev tag_001_stream, rest = []\<rparr>)"
    by simp_all
  moreover from packet_header_tags[OF q, of False] bits
  have "scan_word False ?g = Inr (Continue False ?g1)" by simp
  ultimately show ?thesis using p by simp
qed

subsection \<open>find\_config\_packet: the synchronisation loop\<close>

lemma sync_search_mismatch:
  assumes "rest f = 0xAA # b1 # b2 # b3 # r"
    and "bits_to_int (word_bits [170, uint b1, uint b2, uint b3]) \<noteq> SYNC_WORD"
  shows "sync_search f = sync_search \<lparr>consumed = b3 # b2 # b1 # 0xAA # consumed f, rest = r\<rparr>"
proof -
  have rb: "read_byte f = ([0xAA], \<lparr>consumed = 0xAA # consumed f, rest = b1 # b2 # b3 # r\<rparr>)"
    using assms(1) by (simp add: read_byte_def)
  have sb: "seek_back \<lparr>consumed = 0xAA # consumed f, rest = b1 # b2 # b3 # r\<rparr> = Inr f"
    using assms(1) by (simp add: seek_back_def)
  have pw: "parse_word f = Inr (word_bits [170, uint b1, uint b2, uint b3],
      \<lparr>consumed = b3 # b2 # b1 # 0xAA # consumed f, rest = r\<rparr>)"
    using assms(1) by (simp add: parse_word_eq advance_def)
  show ?thesis
    by (subst sync_search.simps) (simp add: rb sb pw py_ord_def assms(2))
qed

text \<open>The FDRI write idiom followed by a Type 2 header of length 202.\<close>

definition stray_aa_packets :: "byte list" where
  "stray_aa_packets = [0x30, 0x00, 0x40, 0x00,  0x50, 0x00, 0x00, 0xCA]"

text \<open>
  Claim C3 fails on the source. After a 0xAA byte whose word is not the sync word the
  loop goes on four bytes after that byte, not one: in the stream
  \<open>AA AA 99 55 66 ...\<close> the sync word at offset 1 is never examined, the loop runs to the
  end of the file and \<^verbatim>\<open>ord(b'')\<close> raises. Without the stray byte the same stream is
  synchronised and the configuration packet is found.
\<close>

theorem sync_search_skips_overlap:
  "sync_search \<lparr>consumed = [], rest = [0xAA, 0x99, 0x55, 0x66] @ stray_aa_packets\<rparr>
     = Inr \<lparr>consumed = [0x66, 0x55, 0x99, 0xAA], rest = stray_aa_packets\<rparr>
   \<and> sync_search \<lparr>consumed = [], rest = [0xAA, 0xAA, 0x99, 0x55, 0x66] @ stray_aa_packets\<rparr>
     = Inl TypeError
   \<and> find_config_packet
        \<lparr>consumed = [], rest = sample_header @ [0xAA, 0x99, 0x55, 0x66] @ stray_aa_packets\<rparr>
     = Inr ((''xc7-1'', 202),
            \<lparr>consumed = rev (sample_header @ [0xAA, 0x99, 0x55, 0x66] @ stray_aa_packets), rest = []\<rparr>)
   \<and> find_config_packet
        \<lparr>consumed = [], rest = sample_header @ [0xAA, 0xAA, 0x99, 0x55, 0x66] @ stray_aa_packets\<rparr>
     = Inl TypeError"
  by code_simp

subsection \<open>parse\_config\_packet: one frame\<close>

lemma foldl_enumerate_append:
  "foldl (\<lambda>acc (i, b). if P i b then acc @ [g i] else acc) acc (enumerate n xs)
   = acc @ concat (map (\<lambda>j. if P (n + j) (xs ! j) then [g (n + j)] else []) [0..<length xs])"
proof (induction xs arbitrary: n acc)
  case Nil
  then show ?case by simp
next
  case (Cons x xs)
  have "map (\<lambda>j. if P (n + j) ((x # xs) ! j) then [g (n + j)] else []) [0..<length (x # xs)]
     = (if P n x then [g n] else [])
       # map (\<lambda>j. if P (Suc n + j) (xs ! j) then [g (Suc n + j)] else []) [0..<length xs]"
    by (simp add: map_upt_Suc del: upt_Suc)
  then show ?case by (simp add: Cons.IH)
qed

lemma word_loop_eq:
  "word_loop hex wo word bits = bits @ word_high_bits hex wo word"
proof -
  have "word_loop hex wo word bits
      = foldl (\<lambda>acc (i, b). if b = 1 \<and> \<not> (wo = 50 \<and> i \<le> 12) then acc @ [bit_name hex wo i] else acc)
          bits (enumerate 0 word)"
    by (simp add: word_loop_def Let_def)
  also have "\<dots> = bits @ word_high_bits hex wo word"
    unfolding word_high_bits_def
    by (subst foldl_enumerate_append[where P = "\<lambda>i b. b = 1 \<and> \<not> (wo = 50 \<and> i \<le> 12)"])
      (simp cong: if_cong)
  finally show ?thesis .
qed

lemma frame_words_upt:
  "frame_words hex [n..<n + k] (bits, rem, f) =
     (if 4 * k \<le> length (rest f)
      then Inr (bits @ concat (map (\<lambda>j. word_high_bits hex (n + j) (words_of (rest f) ! j)) [0..<k]),
                rem - int k, advance (4 * k) f)
      else Inl TypeError)"
proof (induction k arbitrary: n bits rem f)
  case 0
  then show ?case by (simp add: frame_words.simps)
next
  case (Suc k)
  have upt: "[n..<n + Suc k] = n # [Suc n..<Suc n + k]"
    by (simp add: upt_conv_Cons)
  show ?case
  proof (cases "4 \<le> length (rest f)")
    case False
    then show ?thesis unfolding upt by (simp add: frame_words.simps parse_word_eq)
  next
    case True
    have le: "4 * Suc k \<le> length (rest f) \<longleftrightarrow> 4 * k \<le> length (rest f) - 4"
      using True by auto
    have adv: "advance (4 * k) (advance 4 f) = advance (4 * Suc k) f"
      by (simp add: advance_advance)
    have ws: "words_of (rest f) = word_bits (map uint (take 4 (rest f))) # words_of (drop 4 (rest f))"
      using True by (rule words_of_hd)
    have m: "map (\<lambda>j. word_high_bits hex (n + j) (words_of (rest f) ! j)) [0..<Suc k]
       = word_high_bits hex n (word_bits (map uint (take 4 (rest f))))
         # map (\<lambda>j. word_high_bits hex (Suc n + j) (words_of (drop 4 (rest f)) ! j)) [0..<k]"
      by (subst ws) (simp add: map_upt_Suc del: upt_Suc)
    let ?w = "word_bits (map uint (take 4 (rest f)))"
    have "frame_words hex [n..<n + Suc k] (bits, rem, f)
        = frame_words hex [Suc n..<Suc n + k] (bits @ word_high_bits hex n ?w, rem - 1, advance 4 f)"
      unfolding upt using True by (simp add: frame_words.simps parse_word_eq word_loop_eq del: upt_Suc)
    also have "\<dots> = (if 4 * k \<le> length (rest (advance 4 f))
      then Inr ((bits @ word_high_bits hex n ?w)
                  @ concat (map (\<lambda>j. word_high_bits hex (Suc n + j) (words_of (rest (advance 4 f)) ! j)) [0..<k]),
                rem - 1 - int k, advance (4 * k) (advance 4 f))
      else Inl TypeError)"
      by (rule Suc.IH)
    finally show ?thesis
      unfolding m adv using le by (simp del: mult_Suc_right upt_Suc)
  qed
qed

lemma frame_words_eq:
  "frame_words hex [0..<FRAME_LENGTH] (bits, rem, f) =
     (if 404 \<le> length (rest f)
      then Inr (bits @ frame_high_bits hex (words_of (rest f)), rem - 101, advance 404 f)
      else Inl TypeError)"
  using frame_words_upt[of hex 0 101 bits rem f]
  by (simp add: FRAME_LENGTH_def frame_high_bits_def)

subsection \<open>parse\_config\_packet: the walk over the frame list\<close>

lemma skip_loop_eq:
  "skip_loop n (rem, f) =
     (if 4 * n \<le> length (rest f) then Inr (rem, advance (4 * n) f) else Inl TypeError)"
proof (induction n arbitrary: f)
  case 0
  then show ?case by simp
next
  case (Suc n)
  show ?case
  proof (cases "4 \<le> length (rest f)")
    case False
    then show ?thesis by (simp add: parse_word_eq)
  next
    case True
    have "4 * Suc n \<le> length (rest f) \<longleftrightarrow> 4 * n \<le> length (rest f) - 4"
      using True by auto
    moreover have "advance (4 + 4 * n) f = advance (4 * Suc n) f" by simp
    ultimately show ?thesis using True
      by (simp add: parse_word_eq Suc.IH advance_advance del: mult_Suc_right)
  qed
qed

lemma frame_step_eq:
  "frame_step prev frame (bits, rem, f) =
     (if 4 * (skip_words prev frame + 101) \<le> length (rest f)
      then Inr (bits @ frame_high_bits (fst frame) (drop (skip_words prev frame) (words_of (rest f))),
                rem - int (skip_words prev frame + 101),
                advance (4 * (skip_words prev frame + 101)) f)
      else Inl TypeError)"
proof (cases "py_slice 17 23 (snd prev) \<noteq> py_slice 17 23 (snd frame)")
  case True
  then have sk: "skip_words prev frame = 202" by (simp add: skip_words_def)
  have ws: "words_of (drop 808 (rest f)) = drop 202 (words_of (rest f))"
    using words_of_drop[of 202 "rest f"] by simp
  show ?thesis
    using True
    by (auto simp: frame_step_def sk skip_loop_eq FRAME_LENGTH_def frame_words_eq[unfolded FRAME_LENGTH_def]
        advance_advance ws)
next
  case False
  then have sk: "skip_words prev frame = 0" by (simp add: skip_words_def)
  show ?thesis
    using False
    by (auto simp: frame_step_def sk frame_words_eq)
qed

lemma frames_loop_eq:
  "frames_loop prev frames (bits, rem, f) =
     (if 4 * walk_used prev frames \<le> length (rest f)
      then Inr (bits @ walk_bits prev frames (words_of (rest f)),
                rem - int (walk_used prev frames),
                advance (4 * walk_used prev frames) f)
      else Inl TypeError)"
proof (induction frames arbitrary: prev bits rem f)
  case Nil
  then show ?case by simp
next
  case (Cons frame frames)
  let ?k = "skip_words prev frame + 101"
  show ?case
  proof (cases "4 * ?k \<le> length (rest f)")
    case False
    then show ?thesis by (simp add: frame_step_eq)
  next
    case True
    have le: "4 * (?k + walk_used frame frames) \<le> length (rest f)
        \<longleftrightarrow> 4 * walk_used frame frames \<le> length (rest f) - 4 * ?k"
      using True by auto
    have ws: "words_of (drop (4 * ?k) (rest f)) = drop ?k (words_of (rest f))"
      by (rule words_of_drop)
    have adv: "advance (4 * walk_used frame frames) (advance (4 * ?k) f)
        = advance (4 * (?k + walk_used frame frames)) f"
      by (simp add: advance_advance algebra_simps)
    have "frames_loop prev (frame # frames) (bits, rem, f)
        = frames_loop frame frames
            (bits @ frame_high_bits (fst frame) (drop (skip_words prev frame) (words_of (rest f))),
             rem - int ?k, advance (4 * ?k) f)"
      using True by (simp add: frame_step_eq)
    also have "\<dots> = (if 4 * walk_used frame frames \<le> length (rest (advance (4 * ?k) f))
      then Inr ((bits @ frame_high_bits (fst frame) (drop (skip_words prev frame) (words_of (rest f))))
                  @ walk_bits frame frames (words_of (rest (advance (4 * ?k) f))),
                rem - int ?k - int (walk_used frame frames),
                advance (4 * walk_used frame frames) (advance (4 * ?k) f))
      else Inl TypeError)"
      by (rule Cons.IH)
    finally show ?thesis
      unfolding adv using le ws by (simp add: algebra_simps)
  qed
qed

lemma parse_config_packet_eq:
  "parse_config_packet f len frames =
     (if len mod 101 \<noteq> 0 then Inl MalformedPacket
      else if frames = [] then Inl IndexError
      else if \<not> 4 * walk_used (hd frames) frames \<le> length (rest f) then Inl TypeError
      else if len - int (walk_used (hd frames) frames) \<noteq> 202 then Inl IncompletePacket
      else Inr (walk_bits (hd frames) frames (words_of (rest f)),
                advance (4 * walk_used (hd frames) frames) f))"
  by (cases frames) (simp_all add: parse_config_packet_def FRAME_LENGTH_def frames_loop_eq)

subsection \<open>parse\_config\_packet: the emitted bits in closed form\<close>

lemma words_before_0 [simp]: "words_before frames 0 = 0"
  by (simp add: words_before_def)

lemma skip_words_row_change:
  "skip_words (frames ! (i - 1)) (frames ! i) = (if row_change frames i then 202 else 0)"
  by (cases i) (auto simp: skip_words_def row_change_def)

lemma frame_start_eq:
  "frame_start frames i = words_before frames i + skip_words (frames ! (i - 1)) (frames ! i)"
  unfolding frame_start_def words_before_def skip_words_row_change by simp

lemma words_before_Suc:
  "words_before frames (Suc i) = frame_start frames i + 101"
  by (simp add: frame_start_def words_before_def)

lemma words_before_mono: "i \<le> j \<Longrightarrow> words_before frames i \<le> words_before frames j"
proof (induction j)
  case 0
  then show ?case by simp
next
  case (Suc j)
  show ?case
  proof (cases "i = Suc j")
    case True
    then show ?thesis by simp
  next
    case False
    then have "words_before frames i \<le> words_before frames j" using Suc by simp
    also have "\<dots> \<le> words_before frames (Suc j)"
      by (simp add: words_before_Suc frame_start_eq)
    finally show ?thesis .
  qed
qed

lemma walk_used_drop:
  "i \<le> length frames \<Longrightarrow>
   walk_used (frames ! (i - 1)) (drop i frames) + words_before frames i
     = words_before frames (length frames)"
proof (induction "length frames - i" arbitrary: i)
  case 0
  then show ?case by simp
next
  case (Suc n)
  then have i: "i < length frames" by simp
  have d: "drop i frames = frames ! i # drop (Suc i) frames"
    using i by (simp add: Cons_nth_drop_Suc)
  have "walk_used (frames ! (Suc i - 1)) (drop (Suc i) frames) + words_before frames (Suc i)
      = words_before frames (length frames)"
    using Suc.hyps(1)[of "Suc i"] Suc.hyps(2) i by simp
  then show ?case
    unfolding d by (simp add: words_before_Suc frame_start_eq)
qed

lemma walk_used_eq:
  "walk_used (hd frames) frames = words_before frames (length frames)"
proof (cases frames)
  case Nil
  then show ?thesis by simp
next
  case (Cons a list)
  then have "hd frames = frames ! (0 - 1)" by simp
  then show ?thesis using walk_used_drop[of 0 frames] by simp
qed

lemma emitted_bits_entries:
  "emitted_bits frames ws = concat (map (frame_entries frames ws) [0..<length frames])"
  by (simp only: emitted_bits_def frame_entries_def[abs_def])

lemma words_of_length_32: "w \<in> set (words_of bs) \<Longrightarrow> length w = 32"
  by (induction bs rule: words_of.induct) (auto simp: length_word_bits)

lemma frame_high_bits_entries:
  assumes "\<forall>w \<in> set ws. length w = 32" and "frame_start frames i + 101 \<le> length ws"
  shows "frame_high_bits (fst (frames ! i)) (drop (frame_start frames i) ws) = frame_entries frames ws i"
proof -
  have "word_high_bits (fst (frames ! i)) j (drop (frame_start frames i) ws ! j)
      = concat (map (\<lambda>bit_offset.
           if ws ! (frame_start frames i + j) ! bit_offset = 1 \<and> \<not> (j = 50 \<and> bit_offset \<le> 12)
           then [bit_name (fst (frames ! i)) j bit_offset] else []) [0..<32])"
    if "j \<in> set [0..<101]" for j
  proof -
    have j: "frame_start frames i + j < length ws" using that assms(2) by simp
    then have "drop (frame_start frames i) ws ! j = ws ! (frame_start frames i + j)" by simp
    moreover have "length (ws ! (frame_start frames i + j)) = 32"
      using assms(1) j by simp
    ultimately show ?thesis by (simp add: word_high_bits_def del: upt_Suc)
  qed
  then show ?thesis
    unfolding frame_high_bits_def frame_entries_def
    by (intro arg_cong[where f = concat] map_cong refl)
qed

lemma walk_bits_drop:
  assumes "\<forall>w \<in> set ws. length w = 32" and "words_before frames (length frames) \<le> length ws"
  shows "i \<le> length frames \<Longrightarrow>
   walk_bits (frames ! (i - 1)) (drop i frames) (drop (words_before frames i) ws)
     = concat (map (frame_entries frames ws) [i..<length frames])"
proof (induction "length frames - i" arbitrary: i)
  case 0
  then show ?case by simp
next
  case (Suc n)
  then have i: "i < length frames" by simp
  have d: "drop i frames = frames ! i # drop (Suc i) frames"
    using i by (simp add: Cons_nth_drop_Suc)
  have up: "[i..<length frames] = i # [Suc i..<length frames]"
    using i by (simp add: upt_conv_Cons)
  let ?sk = "skip_words (frames ! (i - 1)) (frames ! i)"
  have le: "frame_start frames i + 101 \<le> length ws"
    using words_before_mono[of "Suc i" "length frames" frames] i assms(2)
    by (simp add: words_before_Suc)
  have d1: "drop ?sk (drop (words_before frames i) ws) = drop (frame_start frames i) ws"
    by (simp add: frame_start_eq add.commute)
  have d2: "drop (?sk + 101) (drop (words_before frames i) ws) = drop (words_before frames (Suc i)) ws"
    by (simp add: words_before_Suc frame_start_eq algebra_simps)
  have ih: "walk_bits (frames ! i) (drop (Suc i) frames) (drop (words_before frames (Suc i)) ws)
      = concat (map (frame_entries frames ws) [Suc i..<length frames])"
    using Suc.hyps(1)[of "Suc i"] Suc.hyps(2) i by simp
  show ?case
    unfolding d up
    by (simp only: walk_bits.simps d1 d2 ih frame_high_bits_entries[OF assms(1) le] list.map concat.simps)
qed

lemma walk_bits_eq:
  assumes "4 * walk_used (hd frames) frames \<le> length bs"
  shows "walk_bits (hd frames) frames (words_of bs) = emitted_bits frames (words_of bs)"
proof (cases frames)
  case Nil
  then show ?thesis by (simp add: emitted_bits_def)
next
  case (Cons a list)
  then have hd: "hd frames = frames ! (0 - 1)" by simp
  have "words_before frames (length frames) \<le> length (words_of bs)"
    using assms by (simp add: walk_used_eq words_of_length)
  then show ?thesis
    using walk_bits_drop[of "words_of bs" frames 0] words_of_length_32
    by (simp add: hd emitted_bits_entries)
qed

subsection \<open>parse\_config\_packet: a sample run\<close>

lemma enum_high_bits_Nil [simp]: "enum_high_bits hex n [] = []"
  by (simp add: enum_high_bits_def)

lemma enum_high_bits_Cons:
  "enum_high_bits hex n (w # ws) = word_high_bits hex n w @ enum_high_bits hex (Suc n) ws"
  by (simp add: enum_high_bits_def)

lemma enum_high_bits_append:
  "enum_high_bits hex n (xs @ ys) = enum_high_bits hex n xs @ enum_high_bits hex (n + length xs) ys"
  by (simp add: enum_high_bits_def enumerate_append_eq)

lemma word_high_bits_zero: "word_high_bits hex j (replicate 32 0) = []"
  by (simp add: word_high_bits_def del: upt_Suc)

lemma enum_high_bits_zeros: "enum_high_bits hex n (replicate k (replicate 32 0)) = []"
  by (induction k arbitrary: n) (simp_all add: enum_high_bits_Cons word_high_bits_zero)

lemma frame_high_bits_enum:
  "101 \<le> length ws \<Longrightarrow> frame_high_bits hex ws = enum_high_bits hex 0 (take 101 ws)"
proof -
  assume len: "101 \<le> length ws"
  have "enumerate 0 (take 101 ws) = map (\<lambda>j. (j, ws ! j)) [0..<101]"
    using len by (auto simp: list_eq_iff_nth_eq nth_enumerate_eq simp del: upt_Suc)
  then show ?thesis
    by (simp add: frame_high_bits_def enum_high_bits_def comp_def del: upt_Suc)
qed

lemma words_of_zeros:
  "words_of (replicate (4 * n) 0 @ bs) = replicate n (replicate 32 0) @ words_of bs"
proof (induction n)
  case 0
  then show ?case by simp
next
  case (Suc n)
  have z: "word_bits [uint (0::byte), uint (0::byte), uint (0::byte), uint (0::byte)] = replicate 32 0"
    by code_simp
  have "replicate (4 * Suc n) (0::byte) = 0 # 0 # 0 # 0 # replicate (4 * n) 0"
    by (simp add: numeral_eq_Suc)
  then show ?case using Suc z by (simp del: mult_Suc_right)
qed

lemma sample_words:
  "words_of sample_payload =
     word_bits [0, 0, 0, 5] # replicate 49 (replicate 32 0)
     @ word_bits [255, 255, 255, 255] # replicate 50 (replicate 32 0)
     @ word_bits [255, 255, 255, 255] # replicate 201 (replicate 32 0)
     @ replicate 100 (replicate 32 0) @ [word_bits [128, 0, 0, 0]]"
  unfolding sample_payload_def
  by (simp only: append_Cons append_Nil words_of.simps words_of_zeros) simp


lemma sample_skip:
  "skip_words (''00000000'', replicate 32 0) (''00000000'', replicate 32 0) = 0"
  "skip_words (''00000000'', replicate 32 0) (''00020000'', (replicate 32 0)[17 := 1]) = 202"
  by code_simp+

lemma sample_walk_used: "walk_used (hd sample_frames) sample_frames = 404"
  using sample_skip by (simp add: sample_frames_def)

lemma sample_length: "length sample_payload = 1619"
  by (simp add: sample_payload_def)

lemma sample_frame_1:
  "frame_high_bits ''00000000'' (words_of sample_payload) = take 21 sample_bits"
proof -
  have w0: "word_high_bits ''00000000'' 0 (word_bits [0, 0, 0, 5]) = take 2 sample_bits"
    unfolding sample_bits_def by code_simp
  have w50: "word_high_bits ''00000000'' 50 (word_bits [255, 255, 255, 255]) = take 19 (drop 2 sample_bits)"
    unfolding sample_bits_def by code_simp
  have "take 101 (words_of sample_payload)
      = word_bits [0, 0, 0, 5] # replicate 49 (replicate 32 0)
        @ word_bits [255, 255, 255, 255] # replicate 50 (replicate 32 0)"
    by (simp add: sample_words)
  then have "frame_high_bits ''00000000'' (words_of sample_payload)
      = take 2 sample_bits @ take 19 (drop 2 sample_bits)"
    by (subst frame_high_bits_enum)
      (simp_all add: sample_words enum_high_bits_Cons enum_high_bits_append enum_high_bits_zeros w0 w50)
  then show ?thesis by (simp add: sample_bits_def)
qed

lemma sample_frame_2:
  "frame_high_bits ''00020000'' (drop 303 (words_of sample_payload)) = drop 21 sample_bits"
proof -
  have w100: "word_high_bits ''00020000'' 100 (word_bits [128, 0, 0, 0]) = drop 21 sample_bits"
    unfolding sample_bits_def by code_simp
  have d: "drop 303 (words_of sample_payload) = replicate 100 (replicate 32 0) @ [word_bits [128, 0, 0, 0]]"
    by (simp add: sample_words)
  show ?thesis
    unfolding d
    by (subst frame_high_bits_enum)
      (simp_all add: enum_high_bits_Cons enum_high_bits_append enum_high_bits_zeros w100)
qed

lemma sample_walk_bits:
  "walk_bits (hd sample_frames) sample_frames (words_of sample_payload) = sample_bits"
proof -
  have "walk_bits (hd sample_frames) sample_frames (words_of sample_payload)
      = frame_high_bits ''00000000'' (words_of sample_payload)
        @ frame_high_bits ''00020000'' (drop 303 (words_of sample_payload))"
    by (simp add: sample_frames_def sample_skip)
  also have "\<dots> = take 21 sample_bits @ drop 21 sample_bits"
    by (simp only: sample_frame_1 sample_frame_2)
  finally show ?thesis by simp
qed

lemma sample_rest: "drop 1616 sample_payload = [1, 2, 3]"
  by (simp add: sample_payload_def)

lemma sample_walk:
  "frames_loop (hd sample_frames) sample_frames ([], len, \<lparr>consumed = [], rest = sample_payload\<rparr>)
     = Inr (sample_bits, len - 404, \<lparr>consumed = rev (take 1616 sample_payload), rest = [1, 2, 3]\<rparr>)"
  by (simp add: frames_loop_eq sample_walk_used sample_length sample_walk_bits advance_def sample_rest)

lemma sample_run:
  "parse_config_packet \<lparr>consumed = [], rest = sample_payload\<rparr> 606 sample_frames
     = Inr (sample_bits, \<lparr>consumed = rev (take 1616 sample_payload), rest = [1, 2, 3]\<rparr>)"
proof -
  have "sample_frames \<noteq> []" by (simp add: sample_frames_def)
  then show ?thesis
    by (simp add: parse_config_packet_eq sample_walk_used sample_length sample_walk_bits advance_def sample_rest)
qed

subsection \<open>parse\_config\_packet: the claims\<close>

text \<open>
  Claim C2. Whenever \<open>parse_config_packet\<close> returns a bit list, the list has exactly one
  entry for each bit equal to 1 in the words read for the frames, bits 0..12 of word 50 of
  every frame left out (bits 13..31 of that word are emitted when set) and the words skipped
  at a row boundary contributing nothing; the entries come in the order of the frame list,
  then of the word offsets 0..100, then of the bit offsets 0..31.
\<close>

theorem parse_config_packet_emits:
  assumes "parse_config_packet f len frames = Inr (bits, f')"
  shows "bits = emitted_bits frames (words_of (rest f))"
proof -
  from assms have "4 * walk_used (hd frames) frames \<le> length (rest f)"
    and "bits = walk_bits (hd frames) frames (words_of (rest f))"
    by (auto simp: parse_config_packet_eq split: if_splits)
  then show ?thesis by (simp add: walk_bits_eq)
qed

text \<open>
  On the sample payload: bits 0 and 2 of word 0, bits 13..31 of word 50 of the first frame,
  nothing of the skipped words, and bit 31 of word 100 of the second frame.
\<close>

theorem parse_config_packet_emits_witness:
  "parse_config_packet \<lparr>consumed = [], rest = sample_payload\<rparr> 606 sample_frames
     = Inr (sample_bits, \<lparr>consumed = rev (take 1616 sample_payload), rest = [1, 2, 3]\<rparr>)
   \<and> sample_bits = emitted_bits sample_frames (words_of sample_payload)"
  using parse_config_packet_emits[OF sample_run] sample_run by simp

lemma frames_loop_append:
  "frames_loop prev (xs @ ys) st =
     (case frames_loop prev xs st of
        Inl e \<Rightarrow> Inl e
      | Inr st1 \<Rightarrow> frames_loop (last (prev # xs)) ys st1)"
  by (induction xs arbitrary: prev st) (simp_all split: sum.splits)

text \<open>
  Claim C7. One pass of the loop over the frames, for a frame whose address bits 17..22
  differ from those of the previous frame, first reads and discards 202 words and takes 202
  from the counter, then reads the 101 words of the frame; for a frame with the same bits
  17..22 it reads the 101 words of the frame only. The walk over a frame list does this pass
  for each of its frames, with the frame before it in the list as the previous frame.
\<close>

theorem row_boundary_skip:
  "(frame_step prev frame (bits, rem, f) = Inr (bits', rem', f') \<longrightarrow>
      (if py_slice 17 23 (snd prev) \<noteq> py_slice 17 23 (snd frame)
       then f' = advance (4 * (202 + 101)) f \<and> 4 * (202 + 101) \<le> length (rest f)
            \<and> rem' = rem - 202 - 101
            \<and> bits' = bits @ frame_high_bits (fst frame) (drop 202 (words_of (rest f)))
       else f' = advance (4 * 101) f \<and> 4 * 101 \<le> length (rest f)
            \<and> rem' = rem - 101
            \<and> bits' = bits @ frame_high_bits (fst frame) (words_of (rest f))))
   \<and> (frames_loop first (xs @ frame # ys) st = Inr st' \<longrightarrow>
        (\<exists>st1 st2. frames_loop first xs st = Inr st1
           \<and> frame_step (last (first # xs)) frame st1 = Inr st2
           \<and> frames_loop frame ys st2 = Inr st'))"
  (is "?A \<and> ?B")
proof -
  have A: ?A
  proof
    assume "frame_step prev frame (bits, rem, f) = Inr (bits', rem', f')"
    then show "if py_slice 17 23 (snd prev) \<noteq> py_slice 17 23 (snd frame)
         then f' = advance (4 * (202 + 101)) f \<and> 4 * (202 + 101) \<le> length (rest f)
              \<and> rem' = rem - 202 - 101
              \<and> bits' = bits @ frame_high_bits (fst frame) (drop 202 (words_of (rest f)))
         else f' = advance (4 * 101) f \<and> 4 * 101 \<le> length (rest f)
              \<and> rem' = rem - 101
              \<and> bits' = bits @ frame_high_bits (fst frame) (words_of (rest f))"
      by (auto simp: frame_step_eq skip_words_def split: if_splits)
  qed
  have B: ?B
  proof
    assume "frames_loop first (xs @ frame # ys) st = Inr st'"
    then show "\<exists>st1 st2. frames_loop first xs st = Inr st1
             \<and> frame_step (last (first # xs)) frame st1 = Inr st2
             \<and> frames_loop frame ys st2 = Inr st'"
      by (auto simp: frames_loop_append split: sum.splits)
  qed
  show ?thesis by (rule conjI[OF A B])
qed



text \<open>
  Claim C8. When the walk over all frames finishes, the counter is the payload length less
  the words read; if it is not 202 the call fails with the "not fully parsed" exit and
  returns no bit list, and otherwise it returns the bit list. A call that returns a bit
  list has left exactly 202 words of the declared payload unread.
\<close>

theorem incomplete_packet:
  "(frames \<noteq> [] \<and> len mod 101 = 0
      \<and> frames_loop (hd frames) frames ([], len, f) = Inr (bits, rem, f') \<longrightarrow>
        (\<exists>n. f' = advance (4 * n) f \<and> 4 * n \<le> length (rest f) \<and> rem = len - int n)
        \<and> parse_config_packet f len frames
            = (if rem \<noteq> 202 then Inl IncompletePacket else Inr (bits, f')))
   \<and> (parse_config_packet g m frames' = Inr (bits', g') \<longrightarrow>
        (\<exists>n. g' = advance (4 * n) g \<and> 4 * n \<le> length (rest g) \<and> m - int n = 202))"
  (is "?A \<and> ?B")
proof -
  have A: ?A
  proof
    assume a: "frames \<noteq> [] \<and> len mod 101 = 0
        \<and> frames_loop (hd frames) frames ([], len, f) = Inr (bits, rem, f')"
    then have 1: "\<exists>n. f' = advance (4 * n) f \<and> 4 * n \<le> length (rest f) \<and> rem = len - int n"
      by (intro exI[of _ "walk_used (hd frames) frames"]) (auto simp: frames_loop_eq split: if_splits)
    from a have 2: "parse_config_packet f len frames
              = (if rem \<noteq> 202 then Inl IncompletePacket else Inr (bits, f'))"
      by (cases frames) (auto simp: parse_config_packet_def FRAME_LENGTH_def)
    from 1 2 show "(\<exists>n. f' = advance (4 * n) f \<and> 4 * n \<le> length (rest f) \<and> rem = len - int n)
        \<and> parse_config_packet f len frames
            = (if rem \<noteq> 202 then Inl IncompletePacket else Inr (bits, f'))"
      by (rule conjI)
  qed
  have B: ?B
  proof
    assume "parse_config_packet g m frames' = Inr (bits', g')"
    then show "\<exists>n. g' = advance (4 * n) g \<and> 4 * n \<le> length (rest g) \<and> m - int n = 202"
      by (intro exI[of _ "walk_used (hd frames') frames'"])
        (auto simp: parse_config_packet_eq split: if_splits)
  qed
  show ?thesis by (rule conjI[OF A B])
qed

subsection \<open>parse\_config\_packet: the claims on the sample run\<close>

lemma sample_first_frame:
  "frame_words ''00000000'' [0..<FRAME_LENGTH] ([], len, \<lparr>consumed = [], rest = sample_payload\<rparr>)
     = Inr (take 21 sample_bits, len - 101,
            \<lparr>consumed = rev (take 404 sample_payload), rest = drop 404 sample_payload\<rparr>)"
  by (simp add: frame_words_eq sample_length sample_frame_1 advance_def)

lemma sample_first_step:
  "frame_step (''00000000'', replicate 32 0) (''00000000'', replicate 32 0)
      ([], len, \<lparr>consumed = [], rest = sample_payload\<rparr>)
     = Inr (take 21 sample_bits, len - 101,
            \<lparr>consumed = rev (take 404 sample_payload), rest = drop 404 sample_payload\<rparr>)"
  by (simp add: frame_step_def sample_first_frame)

lemma sample_second_step:
  "frame_step (''00000000'', replicate 32 0) (''00020000'', (replicate 32 0)[17 := 1])
      (take 21 sample_bits, len, \<lparr>consumed = rev (take 404 sample_payload), rest = drop 404 sample_payload\<rparr>)
     = Inr (sample_bits, len - 303,
            \<lparr>consumed = rev (take 1616 sample_payload), rest = [1, 2, 3]\<rparr>)"
proof -
  have ws: "drop 202 (words_of (drop 404 sample_payload)) = drop 303 (words_of sample_payload)"
    using words_of_drop[of 101 sample_payload] by simp
  have tk: "take 1616 sample_payload = take 404 sample_payload @ take 1212 (drop 404 sample_payload)"
    using take_add[of 404 1212 sample_payload] by simp
  show ?thesis
    by (simp add: frame_step_eq sample_skip sample_length ws sample_frame_2 advance_def tk sample_rest)
qed

text \<open>
  The second sample frame is in another row: its pass starts 101 words into the payload,
  reads 303 words and emits from the last 101 of them only. The first pass reads 101 words.
\<close>

theorem row_boundary_skip_witness:
  "frame_step (''00000000'', replicate 32 0) (''00020000'', (replicate 32 0)[17 := 1])
      (take 21 sample_bits, 505, \<lparr>consumed = rev (take 404 sample_payload), rest = drop 404 sample_payload\<rparr>)
     = Inr (sample_bits, 202, \<lparr>consumed = rev (take 1616 sample_payload), rest = [1, 2, 3]\<rparr>)
   \<and> py_slice 17 23 (replicate 32 (0::int)) \<noteq> py_slice 17 23 ((replicate 32 0)[17 := 1])
   \<and> \<lparr>consumed = rev (take 1616 sample_payload), rest = [1, 2, 3]\<rparr>
       = advance (4 * (202 + 101)) \<lparr>consumed = rev (take 404 sample_payload), rest = drop 404 sample_payload\<rparr>
   \<and> sample_bits = take 21 sample_bits
         @ frame_high_bits ''00020000'' (drop 202 (words_of (drop 404 sample_payload)))
   \<and> frame_step (''00000000'', replicate 32 0) (''00000000'', replicate 32 0)
        ([], 606, \<lparr>consumed = [], rest = sample_payload\<rparr>)
       = Inr (take 21 sample_bits, 505,
              \<lparr>consumed = rev (take 404 sample_payload), rest = drop 404 sample_payload\<rparr>)
   \<and> \<lparr>consumed = rev (take 404 sample_payload), rest = drop 404 sample_payload\<rparr>
       = advance (4 * 101) \<lparr>consumed = [], rest = sample_payload\<rparr>
   \<and> take 21 sample_bits = frame_high_bits ''00000000'' (words_of sample_payload)
   \<and> (\<exists>st1 st2.
         frames_loop (hd sample_frames) [hd sample_frames] ([], 606, \<lparr>consumed = [], rest = sample_payload\<rparr>) = Inr st1
       \<and> frame_step (hd sample_frames) (sample_frames ! 1) st1 = Inr st2
       \<and> frames_loop (sample_frames ! 1) [] st2
           = Inr (sample_bits, 202, \<lparr>consumed = rev (take 1616 sample_payload), rest = [1, 2, 3]\<rparr>))"
proof -
  let ?F1 = "(''00000000'', replicate 32 (0::int))"
  let ?F2 = "(''00020000'', (replicate 32 (0::int))[17 := 1])"
  let ?f0 = "\<lparr>consumed = [], rest = sample_payload\<rparr>"
  let ?g1 = "\<lparr>consumed = rev (take 404 sample_payload), rest = drop 404 sample_payload\<rparr>"
  let ?g2 = "\<lparr>consumed = rev (take 1616 sample_payload), rest = [1, 2, 3]\<rparr>"
  have differ: "py_slice 17 23 (replicate 32 (0::int)) \<noteq> py_slice 17 23 ((replicate 32 0)[17 := 1])"
    by code_simp
  have s2: "frame_step ?F1 ?F2 (take 21 sample_bits, 505, ?g1) = Inr (sample_bits, 202, ?g2)"
    using sample_second_step[of 505] by simp
  have s1: "frame_step ?F1 ?F1 ([], 606, ?f0) = Inr (take 21 sample_bits, 505, ?g1)"
    using sample_first_step[of 606] by simp
  have walk: "frames_loop (hd sample_frames) ([hd sample_frames] @ (sample_frames ! 1) # []) ([], 606, ?f0)
      = Inr (sample_bits, 202, ?g2)"
    using sample_walk[of 606] by (simp add: sample_frames_def)
  from row_boundary_skip[where prev = ?F1 and frame = ?F2 and bits = "take 21 sample_bits"
      and rem = 505 and f = ?g1 and bits' = sample_bits and rem' = 202 and f' = ?g2] s2 differ
  have c2: "?g2 = advance (4 * (202 + 101)) ?g1"
    "sample_bits = take 21 sample_bits @ frame_high_bits ''00020000'' (drop 202 (words_of (drop 404 sample_payload)))"
    by simp_all
  from row_boundary_skip[where prev = ?F1 and frame = ?F1 and bits = "[]"
      and rem = 606 and f = ?f0 and bits' = "take 21 sample_bits" and rem' = 505 and f' = ?g1] s1
  have c1: "?g1 = advance (4 * 101) ?f0"
    "take 21 sample_bits = frame_high_bits ''00000000'' (words_of sample_payload)"
    by simp_all
  from row_boundary_skip[where first = "hd sample_frames" and xs = "[hd sample_frames]"
      and frame = "sample_frames ! 1" and ys = "[]" and st = "([], 606, ?f0)"
      and st' = "(sample_bits, 202, ?g2)"] walk
  have c3: "\<exists>st1 st2.
         frames_loop (hd sample_frames) [hd sample_frames] ([], 606, ?f0) = Inr st1
       \<and> frame_step (hd sample_frames) (sample_frames ! 1) st1 = Inr st2
       \<and> frames_loop (sample_frames ! 1) [] st2 = Inr (sample_bits, 202, ?g2)"
    by simp
  show ?thesis
    using s2 differ c2 s1 c1 c3 by blast
qed


lemma skip_loop_add:
  "skip_loop (m + n) st =
     (case skip_loop m st of
        Inl e \<Rightarrow> Inl e
      | Inr st' \<Rightarrow> skip_loop n st')"
proof (induction m arbitrary: st)
  case 0
  then show ?case by simp
next
  case (Suc m)
  obtain rem f where st: "st = (rem, f)" by (cases st)
  show ?case unfolding st using Suc.IH by (simp split: sum.splits)
qed



text \<open>
  With a declared length of 404 words the walk over the sample frames ends with the counter
  at 0 and the call fails; with 606 it returns, 202 words of the payload unread.
\<close>

theorem incomplete_packet_witness:
  "parse_config_packet \<lparr>consumed = [], rest = sample_payload\<rparr> 404 sample_frames = Inl IncompletePacket
   \<and> frames_loop (hd sample_frames) sample_frames ([], 404, \<lparr>consumed = [], rest = sample_payload\<rparr>)
       = Inr (sample_bits, 0, \<lparr>consumed = rev (take 1616 sample_payload), rest = [1, 2, 3]\<rparr>)
   \<and> parse_config_packet \<lparr>consumed = [], rest = sample_payload\<rparr> 606 sample_frames
       = Inr (sample_bits, \<lparr>consumed = rev (take 1616 sample_payload), rest = [1, 2, 3]\<rparr>)
   \<and> (\<exists>n. \<lparr>consumed = rev (take 1616 sample_payload), rest = [1, 2, 3]\<rparr>
            = advance (4 * n) \<lparr>consumed = [], rest = sample_payload\<rparr>
          \<and> 4 * n \<le> length sample_payload \<and> 606 - int n = 202)"
proof -
  let ?f0 = "\<lparr>consumed = [], rest = sample_payload\<rparr>"
  let ?g2 = "\<lparr>consumed = rev (take 1616 sample_payload), rest = [1, 2, 3]\<rparr>"
  have ne: "sample_frames \<noteq> []" by (simp add: sample_frames_def)
  have walk: "frames_loop (hd sample_frames) sample_frames ([], 404, ?f0) = Inr (sample_bits, 0, ?g2)"
    using sample_walk[of 404] by simp
  from incomplete_packet[where frames = sample_frames and len = 404 and f = ?f0
      and bits = sample_bits and rem = 0 and f' = ?g2] ne walk
  have c1: "parse_config_packet ?f0 404 sample_frames = Inl IncompletePacket"
    by simp
  from incomplete_packet[where g = ?f0 and m = 606 and frames' = sample_frames
      and bits' = sample_bits and g' = ?g2] sample_run
  have c2: "\<exists>n. ?g2 = advance (4 * n) ?f0 \<and> 4 * n \<le> length sample_payload \<and> 606 - int n = 202"
    by simp
  show ?thesis using c1 walk sample_run c2 by blast
qed

subsection \<open>get\_frame\_list: the frames are well formed\<close>

lemma addr_ok_update:
  assumes "addr_ok a" "i < 26" "b = 0 \<or> b = 1"
  shows "addr_ok (a[i := b])"
proof -
  have "set (a[i := b]) \<subseteq> insert b (set a)" by (rule set_update_subset_insert)
  moreover have "drop 26 (a[i := b]) = drop 26 a" using assms(2) by simp
  ultimately show ?thesis using assms by (auto simp: addr_ok_def)
qed

lemma bit_01: "drop_bit i (v::int) AND 1 = 0 \<or> drop_bit i v AND 1 = 1"
  by (simp add: bit_and_one)

lemma set_bits_ok:
  assumes "addr_ok a" "lo + n \<le> 26"
  shows "addr_ok (set_bits lo n v a)"
proof -
  have "addr_ok (foldl (\<lambda>addr i. addr[lo + i := drop_bit i v AND 1]) a [0..<k])" if "k \<le> n" for k
    using that
  proof (induction k)
    case 0
    then show ?case using assms(1) by simp
  next
    case (Suc k)
    then have "lo + k < 26" using assms(2) by simp
    then show ?case using Suc bit_01[of k v] by (simp add: addr_ok_update)
  qed
  then show ?thesis by (simp add: set_bits_def)
qed

lemma half_line_ok: "addr_ok a \<Longrightarrow> addr_ok (half_line line a)"
  by (simp add: half_line_def Let_def addr_ok_update)

lemma set_bus_ok:
  assumes "addr_ok a" "length code = 3" "set code \<subseteq> {0, 1}"
  shows "addr_ok (set_bus code a)"
proof -
  have "set (take 23 a) \<subseteq> set a" "set (drop 26 a) \<subseteq> set a"
    by (auto dest: in_set_takeD in_set_dropD)
  then have "set (set_bus code a) \<subseteq> {0, 1}"
    using assms by (auto simp: set_bus_def addr_ok_def)
  moreover have "length (set_bus code a) = 32" using assms by (simp add: set_bus_def addr_ok_def)
  moreover have "drop 26 (set_bus code a) = drop 26 a"
    using assms by (simp add: set_bus_def addr_ok_def)
  ultimately show ?thesis using assms(1) by (simp add: addr_ok_def)
qed

lemma bus_line_ok: "addr_ok a \<Longrightarrow> addr_ok (bus_line line a)"
  by (simp add: bus_line_def Let_def set_bus_ok)

lemma number_line_ok:
  "addr_ok a \<Longrightarrow> lo + n \<le> 26 \<Longrightarrow> number_line lo n line a = Inr a' \<Longrightarrow> addr_ok a'"
  by (auto simp: number_line_def set_bits_ok split: list.splits sum.splits)

lemma emit_frames_ok:
  assumes "addr_ok a" "\<forall>fr \<in> set frames. frame_ok fr" "emit_frames num (a, frames) = (a', frames')"
  shows "addr_ok a' \<and> (\<forall>fr \<in> set frames'. frame_ok fr)"
proof -
  let ?step = "\<lambda>(curr_addr, frames) minor_addr.
              (let curr_addr = set_bits 0 7 (int minor_addr) curr_addr
               in (curr_addr, frames @ [(frame_addr_hex curr_addr, curr_addr)]))"
  have "addr_ok (fst (foldl ?step (a, frames) ms)) \<and> (\<forall>fr \<in> set (snd (foldl ?step (a, frames) ms)). frame_ok fr)"
    for ms :: "nat list"
  proof (induction ms rule: rev_induct)
    case Nil
    then show ?case using assms by simp
  next
    case (snoc m ms)
    then show ?case
      by (auto simp: case_prod_beta Let_def set_bits_ok frame_ok_def)
  qed
  from this[of "[0..<nat num]"] assms(3) show ?thesis
    by (simp add: emit_frames_def)
qed

lemma frame_count_line_ok:
  assumes "addr_ok a" "\<forall>fr \<in> set frames. frame_ok fr"
    "frame_count_line line (a, frames) = Inr (a', frames')"
  shows "addr_ok a' \<and> (\<forall>fr \<in> set frames'. frame_ok fr)"
proof (cases "contains ''}'' line")
  case True
  then show ?thesis using assms by (simp add: frame_count_line_def)
next
  case False
  then obtain num where "emit_frames num (a, frames) = (a', frames')"
    using assms(3) by (auto simp: frame_count_line_def split: list.splits sum.splits)
  then show ?thesis using emit_frames_ok[OF assms(1,2)] by blast
qed

lemma line_step_ok:
  assumes "addr_ok a" "\<forall>fr \<in> set frames. frame_ok fr"
    "line_step line (sc, a, frames) = Inr (sc', a', frames')"
  shows "addr_ok a' \<and> (\<forall>fr \<in> set frames'. frame_ok fr)"
proof -
  let ?a1 = "if sc = HALF_SCOPE then half_line line a else a"
  have ok1: "addr_ok ?a1" using assms(1) by (simp add: half_line_ok)
  from assms(3) obtain a2 a4 where
    a2: "(if sc = ROW_SCOPE then number_line 17 5 line ?a1 else Inr ?a1) = Inr a2"
    and a4: "(if sc = COL_SCOPE then number_line 7 10 line (if sc = BUS_SCOPE then bus_line line a2 else a2)
              else Inr (if sc = BUS_SCOPE then bus_line line a2 else a2)) = Inr a4"
    and fc: "(if sc = FRAME_COUNT_SCOPE then frame_count_line line (a4, frames)
              else Inr (a4, frames)) = Inr (a', frames')"
    by (auto simp: line_step_def Let_def split: sum.splits)
  have ok2: "addr_ok a2"
    using a2 ok1 number_line_ok[of ?a1 17 5 line a2] by (auto split: if_splits)
  let ?a3 = "if sc = BUS_SCOPE then bus_line line a2 else a2"
  have ok3: "addr_ok ?a3" using ok2 by (simp add: bus_line_ok)
  have ok4: "addr_ok a4"
    using a4 ok3 number_line_ok[of ?a3 7 10 line a4] by (auto split: if_splits)
  show ?thesis
    using fc ok4 assms(2) frame_count_line_ok[of a4 frames line a' frames'] by (auto split: if_splits)
qed

lemma lines_loop_ok:
  "addr_ok a \<Longrightarrow> \<forall>fr \<in> set frames. frame_ok fr \<Longrightarrow>
   lines_loop lines (sc, a, frames) = Inr (sc', a', frames') \<Longrightarrow>
   addr_ok a' \<and> (\<forall>fr \<in> set frames'. frame_ok fr)"
proof (induction lines arbitrary: sc a frames)
  case Nil
  then show ?case by simp
next
  case (Cons line lines)
  from Cons.prems(3) obtain sc1 a1 frames1 where
    step: "line_step line (sc, a, frames) = Inr (sc1, a1, frames1)"
    and rest: "lines_loop lines (sc1, a1, frames1) = Inr (sc', a', frames')"
    by (auto split: sum.splits)
  from line_step_ok[OF Cons.prems(1,2) step] have "addr_ok a1" "\<forall>fr \<in> set frames1. frame_ok fr"
    by simp_all
  then show ?case using Cons.IH rest by blast
qed

lemma get_frame_list_frames_ok:
  assumes "get_frame_list xray_dir files part = Inr frames"
  shows "\<forall>fr \<in> set frames. frame_ok fr"
proof -
  from assms obtain p_j sc a fs where
    run: "lines_loop p_j (0, replicate 32 0, []) = Inr (sc, a, fs)" and fr: "frames = sort fs"
    by (auto simp: get_frame_list_def split: option.splits sum.splits)
  have "addr_ok (replicate 32 0)" by (simp add: addr_ok_def)
  then have "\<forall>fr \<in> set fs. frame_ok fr"
    using lines_loop_ok[OF _ _ run] by simp
  then show ?thesis using fr by simp
qed

subsection \<open>get\_frame\_list: the hexadecimal form of an address\<close>

lemma of_char_hex_char:
  "d < 16 \<Longrightarrow> (of_char (hex_char d) :: nat) = (if d < 10 then 48 + d else 87 + d)"
  by (simp add: hex_char_def)

lemma hex_char_0: "hex_char 0 = CHR ''0''"
  by code_simp

lemma hex_char_less: "d < 16 \<Longrightarrow> e < 16 \<Longrightarrow> hex_char d < hex_char e \<longleftrightarrow> d < e"
  by (simp add: less_char_def of_char_hex_char)

lemma hex_char_eq: "d < 16 \<Longrightarrow> e < 16 \<Longrightarrow> hex_char d = hex_char e \<longleftrightarrow> d = e"
proof -
  assume d: "d < 16" and e: "e < 16"
  have "hex_char d = hex_char e \<Longrightarrow> d = e"
  proof -
    assume "hex_char d = hex_char e"
    then have "(of_char (hex_char d) :: nat) = of_char (hex_char e)" by simp
    then show "d = e" using d e by (simp add: of_char_hex_char split: if_splits)
  qed
  then show ?thesis by auto
qed

lemma hex_char_not_stripped: "0 < d \<Longrightarrow> d < 16 \<Longrightarrow> hex_char d \<notin> set ''0x''"
proof -
  assume d: "0 < d" "d < 16"
  have "(of_char (hex_char d) :: nat) \<noteq> 48" "(of_char (hex_char d) :: nat) \<noteq> 120"
    using d by (simp_all add: of_char_hex_char)
  then have "hex_char d \<noteq> CHR ''0''" "hex_char d \<noteq> CHR ''x''"
    by auto
  then show ?thesis by simp
qed

lemma hex_digits_nonempty: "hex_digits n \<noteq> []"
  by (subst hex_digits.simps) simp

lemma hd_hex_digits: "0 < n \<Longrightarrow> \<exists>d. 0 < d \<and> d < 16 \<and> hd (hex_digits n) = hex_char d"
proof (induction n rule: hex_digits.induct)
  case (1 n)
  show ?case
  proof (cases "n < 16")
    case True
    then show ?thesis using "1.prems" by (subst hex_digits.simps) auto
  next
    case False
    then have "0 < n div 16" by (simp add: div_greater_zero_iff)
    then obtain d where "0 < d" "d < 16" "hd (hex_digits (n div 16)) = hex_char d"
      using "1.IH" False by blast
    then show ?thesis using False hex_digits_nonempty[of "n div 16"]
      by (subst hex_digits.simps) auto
  qed
qed

lemma lstrip_hex:
  "lstrip ''0x'' (py_hex (int n)) = (if n = 0 then [] else hex_digits n)"
proof (cases "n = 0")
  case True
  then show ?thesis by (simp add: py_hex_def lstrip_def hex_digits.simps hex_char_0)
next
  case False
  then obtain d where d: "0 < d" "d < 16" "hd (hex_digits n) = hex_char d"
    using hd_hex_digits by blast
  obtain c cs where cs: "hex_digits n = c # cs"
    using hex_digits_nonempty[of n] by (cases "hex_digits n") auto
  then have "c \<notin> set ''0x''" using d hex_char_not_stripped[of d] by simp
  then show ?thesis using False cs by (simp add: py_hex_def lstrip_def)
qed

lemma length_fixed_hex [simp]: "length (fixed_hex k n) = k"
  by (induction k arbitrary: n) simp_all

lemma fixed_hex_0: "fixed_hex k 0 = replicate k (CHR ''0'')"
  by (induction k) (simp_all add: hex_char_0 replicate_append_same)

lemma length_hex_digits: "0 < n \<Longrightarrow> n < 16 ^ k \<Longrightarrow> length (hex_digits n) \<le> k"
proof (induction k arbitrary: n)
  case 0
  then show ?case by simp
next
  case (Suc k)
  show ?case
  proof (cases "n < 16")
    case True
    then show ?thesis by (subst hex_digits.simps) simp
  next
    case False
    then have "0 < n div 16" by (simp add: div_greater_zero_iff)
    moreover have "n div 16 < 16 ^ k" using Suc.prems(2) by (simp add: less_mult_imp_div_less mult.commute)
    ultimately have "length (hex_digits (n div 16)) \<le> k" using Suc.IH by blast
    then show ?thesis using False by (subst hex_digits.simps) simp
  qed
qed

lemma rjust_hex_digits:
  "n < 16 ^ k \<Longrightarrow> rjust k (CHR ''0'') (if n = 0 then [] else hex_digits n) = fixed_hex k n"
proof (induction k arbitrary: n)
  case 0
  then show ?case by (simp add: rjust_def)
next
  case (Suc k)
  show ?case
  proof (cases "n = 0")
    case True
    then show ?thesis using fixed_hex_0[of "Suc k"] by (simp add: rjust_def del: fixed_hex.simps)
  next
    case False
    have dv: "n div 16 < 16 ^ k" using Suc.prems by (simp add: less_mult_imp_div_less mult.commute)
    show ?thesis
    proof (cases "n < 16")
      case True
      then have "hex_digits n = [hex_char n]" by (subst hex_digits.simps) simp
      then show ?thesis using True False by (simp add: rjust_def fixed_hex_0)
    next
      case False
      then have pos: "0 < n div 16" by (simp add: div_greater_zero_iff)
      have hd: "hex_digits n = hex_digits (n div 16) @ [hex_char (n mod 16)]"
        using False by (subst hex_digits.simps) simp
      have len: "length (hex_digits (n div 16)) \<le> k" using length_hex_digits[OF pos dv] .
      have "rjust (Suc k) (CHR ''0'') (hex_digits n)
          = rjust k (CHR ''0'') (hex_digits (n div 16)) @ [hex_char (n mod 16)]"
        using len by (simp add: hd rjust_def Suc_diff_le)
      also have "rjust k (CHR ''0'') (hex_digits (n div 16)) = fixed_hex k (n div 16)"
        using Suc.IH[OF dv] pos by simp
      finally show ?thesis using \<open>n \<noteq> 0\<close> by simp
    qed
  qed
qed

lemma snoc_less:
  "length xs = length ys \<Longrightarrow> xs @ [a] < ys @ [b] \<longleftrightarrow> xs < ys \<or> xs = ys \<and> a < (b::'a::linorder)"
  by (induction xs ys rule: list_induct2) auto

lemma fixed_hex_eq:
  "m < 16 ^ k \<Longrightarrow> n < 16 ^ k \<Longrightarrow> fixed_hex k m = fixed_hex k n \<longleftrightarrow> m = n"
proof (induction k arbitrary: m n)
  case 0
  then show ?case by simp
next
  case (Suc k)
  have "m div 16 < 16 ^ k" "n div 16 < 16 ^ k"
    using Suc.prems by (simp_all add: less_mult_imp_div_less mult.commute)
  then have "fixed_hex k (m div 16) = fixed_hex k (n div 16) \<longleftrightarrow> m div 16 = n div 16"
    using Suc.IH by blast
  moreover have "m = n \<longleftrightarrow> m div 16 = n div 16 \<and> m mod 16 = n mod 16"
    by (metis div_mult_mod_eq)
  ultimately show ?case by (simp add: hex_char_eq)
qed

lemma fixed_hex_less:
  "m < 16 ^ k \<Longrightarrow> n < 16 ^ k \<Longrightarrow> fixed_hex k m < fixed_hex k n \<longleftrightarrow> m < n"
proof (induction k arbitrary: m n)
  case 0
  then show ?case by simp
next
  case (Suc k)
  have dv: "m div 16 < 16 ^ k" "n div 16 < 16 ^ k"
    using Suc.prems by (simp_all add: less_mult_imp_div_less mult.commute)
  have "m < n \<longleftrightarrow> m div 16 < n div 16 \<or> m div 16 = n div 16 \<and> m mod 16 < n mod 16"
  proof -
    have "m = 16 * (m div 16) + m mod 16" "n = 16 * (n div 16) + n mod 16" by simp_all
    moreover have "m mod 16 < 16" "n mod 16 < 16" by simp_all
    ultimately show ?thesis by linarith
  qed
  then show ?case
    using Suc.IH[OF dv] fixed_hex_eq[OF dv]
    by (simp add: snoc_less hex_char_less)
qed

subsection \<open>get\_frame\_list: the order of the frame list\<close>

lemma bits_to_int_bounds:
  "set a \<subseteq> {0, 1} \<Longrightarrow> 0 \<le> bits_to_int a \<and> bits_to_int a < 2 ^ length a"
proof (induction a)
  case Nil
  then show ?case by simp
next
  case (Cons b a)
  then have "b = 0 \<or> b = 1" "0 \<le> bits_to_int a" "bits_to_int a < 2 ^ length a" by auto
  then show ?case by (auto simp: bits_to_int_Cons)
qed

lemma addr_ok_bounds: "addr_ok a \<Longrightarrow> 0 \<le> bits_to_int a \<and> bits_to_int a < 2 ^ 32"
  using bits_to_int_bounds[of a] by (simp add: addr_ok_def)

lemma frame_addr_hex_fixed:
  assumes "addr_ok a"
  shows "frame_addr_hex a = fixed_hex 8 (nat (bits_to_int a))"
proof -
  let ?n = "nat (bits_to_int a)"
  have b: "0 \<le> bits_to_int a" "bits_to_int a < 2 ^ 32" using addr_ok_bounds[OF assms] by simp_all
  then have n: "?n < 16 ^ 8" by simp
  have "frame_addr_hex a = rjust 8 (CHR ''0'') (lstrip ''0x'' (py_hex (int ?n)))"
    using b by (simp add: frame_addr_hex_def)
  also have "\<dots> = rjust 8 (CHR ''0'') (if ?n = 0 then [] else hex_digits ?n)"
    by (simp only: lstrip_hex)
  also have "\<dots> = fixed_hex 8 ?n" using n by (rule rjust_hex_digits)
  finally show ?thesis .
qed

lemma frame_ok_order:
  assumes "frame_ok x" "frame_ok y"
  shows "(fst x < fst y \<longleftrightarrow> bits_to_int (snd x) < bits_to_int (snd y))
     \<and> (fst x = fst y \<longleftrightarrow> bits_to_int (snd x) = bits_to_int (snd y))
     \<and> (fst x \<le> fst y \<longleftrightarrow> bits_to_int (snd x) \<le> bits_to_int (snd y))"
proof -
  let ?m = "nat (bits_to_int (snd x))" and ?n = "nat (bits_to_int (snd y))"
  have bx: "0 \<le> bits_to_int (snd x)" "bits_to_int (snd x) < 2 ^ 32"
    and bnd_y: "0 \<le> bits_to_int (snd y)" "bits_to_int (snd y) < 2 ^ 32"
    using assms addr_ok_bounds by (simp_all add: frame_ok_def)
  then have m: "?m < 16 ^ 8" and n: "?n < 16 ^ 8" by simp_all
  have fx: "fst x = fixed_hex 8 ?m" and fy: "fst y = fixed_hex 8 ?n"
    using assms frame_addr_hex_fixed by (simp_all add: frame_ok_def)
  have l: "fst x < fst y \<longleftrightarrow> ?m < ?n" unfolding fx fy using m n by (rule fixed_hex_less)
  have e: "fst x = fst y \<longleftrightarrow> ?m = ?n" unfolding fx fy using m n by (rule fixed_hex_eq)
  have l': "fst x < fst y \<longleftrightarrow> bits_to_int (snd x) < bits_to_int (snd y)"
    using l bx bnd_y by auto
  have e': "fst x = fst y \<longleftrightarrow> bits_to_int (snd x) = bits_to_int (snd y)"
    using e bx bnd_y by auto
  have "fst x \<le> fst y \<longleftrightarrow> fst x < fst y \<or> fst x = fst y" by auto
  then have "fst x \<le> fst y \<longleftrightarrow> bits_to_int (snd x) \<le> bits_to_int (snd y)"
    unfolding l' e' by auto
  then show ?thesis using l' e' by simp
qed

lemma sorted_map_fst:
  fixes frames :: "frame list"
  assumes "sorted frames"
  shows "sorted (map fst frames)"
proof -
  have "sorted_wrt (\<lambda>x y. fst x \<le> fst y) frames"
    using assms by (rule sorted_wrt_mono_rel[rotated]) (auto simp: less_eq_prod_def)
  then show ?thesis by (simp add: sorted_wrt_map)
qed

text \<open>
  Claim C6 (amended). Whenever \<open>get_frame_list\<close> returns a frame list, the list is sorted
  in ascending order of the frame address strings, each the 8 hexadecimal digits of its
  address, and this order is the ascending numeric order of the 32-bit addresses. The order
  need not be strict: the list is strictly sorted exactly when no address string occurs
  twice in it.
\<close>

theorem get_frame_list_sorted:
  assumes "get_frame_list xray_dir files part = Inr frames"
  shows "sorted (map fst frames)
     \<and> sorted (map (\<lambda>fr. bits_to_int (snd fr)) frames)
     \<and> (\<forall>x \<in> set frames. \<forall>y \<in> set frames.
           fst x \<le> fst y \<longleftrightarrow> bits_to_int (snd x) \<le> bits_to_int (snd y))
     \<and> (\<forall>fr \<in> set frames. length (fst fr) = 8 \<and> fst fr = frame_addr_hex (snd fr)
           \<and> 0 \<le> bits_to_int (snd fr) \<and> bits_to_int (snd fr) < 2 ^ 32)
     \<and> (sorted_wrt (<) (map fst frames) \<longleftrightarrow> distinct (map fst frames))"
proof -
  have ok: "\<forall>fr \<in> set frames. frame_ok fr"
    using assms by (rule get_frame_list_frames_ok)
  from assms obtain fs where "frames = sort fs"
    by (auto simp: get_frame_list_def split: option.splits sum.splits)
  then have "sorted frames" by simp
  then have s1: "sorted (map fst frames)" by (rule sorted_map_fst)
  have ord: "fst x \<le> fst y \<longleftrightarrow> bits_to_int (snd x) \<le> bits_to_int (snd y)"
    if "x \<in> set frames" "y \<in> set frames" for x y
    using that ok frame_ok_order[of x y] by blast
  have "sorted_wrt (\<lambda>x y. fst x \<le> fst y) frames"
    using s1 by (simp add: sorted_wrt_map)
  then have "sorted_wrt (\<lambda>x y. bits_to_int (snd x) \<le> bits_to_int (snd y)) frames"
    by (rule sorted_wrt_mono_rel[rotated]) (simp add: ord)
  then have s2: "sorted (map (\<lambda>fr. bits_to_int (snd fr)) frames)"
    by (simp add: sorted_wrt_map)
  have wf: "length (fst fr) = 8 \<and> fst fr = frame_addr_hex (snd fr)
           \<and> 0 \<le> bits_to_int (snd fr) \<and> bits_to_int (snd fr) < 2 ^ 32"
    if "fr \<in> set frames" for fr
  proof -
    have f: "frame_ok fr" using that ok by blast
    then have "fst fr = fixed_hex 8 (nat (bits_to_int (snd fr)))"
      using frame_addr_hex_fixed by (simp add: frame_ok_def)
    then have "length (fst fr) = 8" by simp
    then show ?thesis using f addr_ok_bounds[of "snd fr"] by (simp add: frame_ok_def)
  qed
  have s3: "sorted_wrt (<) (map fst frames) \<longleftrightarrow> distinct (map fst frames)"
    using s1 by (simp add: strict_sorted_iff)
  show ?thesis using s1 s2 ord wf s3 by blast
qed

subsection \<open>get\_frame\_list: sample descriptors\<close>

lemma wrapped_loop:
  "lines_loop wrapped_rows (0, replicate 32 0, [])
     = Inr (0, replicate 32 0, [(''00000000'', replicate 32 0), (''00000000'', replicate 32 0)])"
  by code_simp

lemma two_columns_loop:
  "lines_loop two_columns (0, replicate 32 0, [])
     = Inr (0, (replicate 32 0)[0 := 1],
            [(''00000080'', (replicate 32 0)[7 := 1]),
             (''00000000'', replicate 32 0),
             (''00000001'', (replicate 32 0)[0 := 1])])"
  by code_simp

lemma sample_path: "sample_files p_j ''db/artix7/xc7a35t/part.json'' = Some p_j"
  by (simp add: sample_files_def)

lemma sample_family: "family_of ''xc7a35t'' = Some ''artix7''"
  by code_simp

lemma wrapped_sort:
  "sort [(''00000000'', replicate 32 (0::int)), (''00000000'', replicate 32 0)]
     = [(''00000000'', replicate 32 0), (''00000000'', replicate 32 0)]"
  by code_simp

lemma two_columns_sort:
  "sort [(''00000080'', (replicate 32 (0::int))[7 := 1]),
         (''00000000'', replicate 32 0),
         (''00000001'', (replicate 32 0)[0 := 1])]
     = [(''00000000'', replicate 32 0),
        (''00000001'', (replicate 32 0)[0 := 1]),
        (''00000080'', (replicate 32 0)[7 := 1])]"
  by code_simp

lemma wrapped_run:
  "get_frame_list ''db'' (sample_files wrapped_rows) ''xc7a35t''
     = Inr [(''00000000'', replicate 32 0), (''00000000'', replicate 32 0)]"
  by (simp only: get_frame_list_def sample_family sample_path wrapped_loop wrapped_sort
      option.case sum.case prod.case append.simps)

lemma two_columns_run:
  "get_frame_list ''db'' (sample_files two_columns) ''xc7a35t''
     = Inr [(''00000000'', replicate 32 0),
            (''00000001'', (replicate 32 0)[0 := 1]),
            (''00000080'', (replicate 32 0)[7 := 1])]"
  by (simp only: get_frame_list_def sample_family sample_path two_columns_loop two_columns_sort
      option.case sum.case prod.case append.simps)


text \<open>
  The rows 0 and 32 give the same address, since the row field has five bits: the frame
  list holds \<open>00000000\<close> twice and is not strictly sorted.
\<close>

theorem get_frame_list_sorted_counterexample:
  "get_frame_list ''db'' (sample_files wrapped_rows) ''xc7a35t''
     = Inr [(''00000000'', replicate 32 0), (''00000000'', replicate 32 0)]
   \<and> \<not> sorted_wrt (<) (map fst [(''00000000'', replicate 32 (0::int)), (''00000000'', replicate 32 0)])"
  using wrapped_run by simp

text \<open>The frames of columns 1 and 0, emitted as 80, 0, 1, come back in ascending order.\<close>

theorem get_frame_list_sorted_witness:
  "get_frame_list ''db'' (sample_files two_columns) ''xc7a35t''
     = Inr [(''00000000'', replicate 32 0),
            (''00000001'', (replicate 32 0)[0 := 1]),
            (''00000080'', (replicate 32 0)[7 := 1])]
   \<and> sorted [''00000000'', ''00000001'', ''00000080'']
   \<and> sorted [bits_to_int (replicate 32 0), bits_to_int ((replicate 32 0)[0 := 1]),
              bits_to_int ((replicate 32 0)[7 := 1])]
   \<and> sorted_wrt (<) [''00000000'', ''00000001'', ''00000080'']"
proof -
  let ?frames = "[(''00000000'', replicate 32 (0::int)),
            (''00000001'', (replicate 32 0)[0 := 1]),
            (''00000080'', (replicate 32 0)[7 := 1])]"
  note inst = get_frame_list_sorted[OF two_columns_run]
  have s1: "sorted (map fst ?frames)" using inst by blast
  have s2: "sorted (map (\<lambda>fr. bits_to_int (snd fr)) ?frames)" using inst by blast
  have d: "distinct (map fst ?frames)" by simp
  have s3: "sorted_wrt (<) (map fst ?frames)" using inst d by blast
  show ?thesis using two_columns_run s1 s2 s3 by simp
qed

subsection \<open>get\_frame\_list: parts of no known family\<close>

lemma family_of_None:
  "family_of part = None \<longleftrightarrow>
     \<not> contains ''xc7a'' part \<and> \<not> contains ''xc7k'' part
     \<and> \<not> contains ''xc7s'' part \<and> \<not> contains ''xc7z'' part"
  by (simp add: family_of_def Let_def)

lemma get_frame_list_unbound:
  "family_of part = None \<Longrightarrow> get_frame_list xray_dir files part = Inl UnboundLocalError"
  by (simp add: get_frame_list_def)

lemma virtex7_found:
  "find_config_packet \<lparr>consumed = [], rest = virtex7_bitstream\<rparr>
     = Inr ((''xc7vx485t-1'', 202), \<lparr>consumed = rev virtex7_bitstream, rest = []\<rparr>)"
  by code_simp

lemma spartan6_found:
  "find_config_packet \<lparr>consumed = [], rest = spartan6_bitstream\<rparr>
     = Inr ((''xc6slx4'', 202), \<lparr>consumed = rev spartan6_bitstream, rest = []\<rparr>)"
  by code_simp

lemma sample_parts:
  "contains ''xc7'' ''xc7vx485t-1''" "family_of ''xc7vx485t-1'' = None"
  "\<not> contains ''xc7'' ''xc6slx4''" "family_of ''xc6slx4'' = None"
  by code_simp+

text \<open>
  Claim C9 fails on the source. For the part \<open>xc7vx485t-1\<close>, which contains \<open>xc7\<close> and
  none of the four family codes, \<^verbatim>\<open>get_high_bits\<close> calls \<^verbatim>\<open>get_frame_list\<close>, where no test
  assigns \<^verbatim>\<open>family\<close> and reading it raises UnboundLocalError; the unsupported-device exit is
  taken only for a part without \<open>xc7\<close>, such as \<open>xc6slx4\<close>.
\<close>

theorem unsupported_family_unbound:
  "get_high_bits xray_dir files virtex7_bitstream = Inl UnboundLocalError
   \<and> get_frame_list xray_dir files ''xc7vx485t-1'' = Inl UnboundLocalError
   \<and> get_frame_list xray_dir files ''xc6slx4'' = Inl UnboundLocalError
   \<and> get_high_bits xray_dir files spartan6_bitstream = Inl UnsupportedDevice"
  by (simp add: get_high_bits_def virtex7_found spartan6_found sample_parts get_frame_list_unbound)

subsection \<open>find\_config\_packet: the FDRI write idiom\<close>

lemma parse_word_01: "parse_word f = Inr (w, f1) \<Longrightarrow> set w \<subseteq> {0, 1}"
  using word_bits_01 by (auto simp: parse_word_eq split: if_splits)

text \<open>
  Claim C1. \<open>find_config_packet\<close> returns a length only from a Type 2 header word (bits
  29, 30, 31 equal to 0, 1, 0) that comes right after a Type 1 header word with opcode 2,
  address 2 and length 0, that is a word whose bits 0..10 (the length) are all 0, whose bits
  13..26 (the address) are 0, 1, 0, ..., 0, whose bits 27, 28 (the opcode) are 0, 1 and whose
  bits 29, 30, 31 are 1, 0, 0: when it returns \<open>n\<close>, the last eight bytes read are such a
  Type 1 word followed by a Type 2 word, and \<open>n\<close> is the value of bits 0..26 of the Type 2
  word. The packet loop, started with the flag \<open>fl\<close>, stops at the first Type 2 word that
  is the first word read with \<open>fl\<close> set or follows such a Type 1 word. A word that is no
  Type 2 header makes the pending flag irrelevant; a Type 1 packet that is not this idiom
  has its payload words (as many as its bits 0..10 say) read and discarded and leaves the
  flag cleared. Conversely the idiom followed by a Type 2 word is always accepted.
\<close>

theorem find_config_packet_fdri_idiom:
  "(find_config_packet f = Inr ((part, n), f') \<longrightarrow>
      (\<exists>b0 b1 b2 b3 b4 b5 b6 b7 c w1 w2.
          consumed f' = [b7, b6, b5, b4, b3, b2, b1, b0] @ c
        \<and> contents f' = contents f
        \<and> w1 = word_bits [uint b0, uint b1, uint b2, uint b3]
        \<and> w2 = word_bits [uint b4, uint b5, uint b6, uint b7]
        \<and> take 11 w1 = replicate 11 0
        \<and> drop 13 w1 = [0, 1] @ replicate 12 0 @ [0, 1] @ [1, 0, 0]
        \<and> drop 29 w2 = [0, 1, 0]
        \<and> n = bits_to_int (take 27 w2)))
   \<and> (packet_scan fl g = Inr (m, g') \<longrightarrow>
      (\<exists>k. k < length (words_of (rest g)) \<and> g' = advance (4 * Suc k) g
        \<and> drop 29 (words_of (rest g) ! k) = [0, 1, 0]
        \<and> m = bits_to_int (take 27 (words_of (rest g) ! k))
        \<and> (if k = 0 then fl
            else take 11 (words_of (rest g) ! (k - 1)) = replicate 11 0
               \<and> drop 13 (words_of (rest g) ! (k - 1))
                   = [0, 1] @ replicate 12 0 @ [0, 1] @ [1, 0, 0])))
   \<and> (parse_word h = Inr (w, h1) \<and> drop 29 w \<noteq> [0, 1, 0] \<longrightarrow>
        packet_scan True h = packet_scan False h)
   \<and> (parse_word h = Inr (w, h1) \<and> drop 29 w = [1, 0, 0]
        \<and> \<not> (take 11 w = replicate 11 0
              \<and> drop 13 w = [0, 1] @ replicate 12 0 @ [0, 1] @ [1, 0, 0])
        \<and> read_words (nat (bits_to_int (take 11 w))) h1 = Inr (ws, h2) \<longrightarrow>
        packet_scan fl' h = packet_scan False h2)
   \<and> (rest q = a0 # a1 # a2 # a3 # a4 # a5 # a6 # a7 # r
        \<and> take 11 (word_bits [uint a0, uint a1, uint a2, uint a3]) = replicate 11 0
        \<and> drop 13 (word_bits [uint a0, uint a1, uint a2, uint a3])
            = [0, 1] @ replicate 12 0 @ [0, 1] @ [1, 0, 0]
        \<and> drop 29 (word_bits [uint a4, uint a5, uint a6, uint a7]) = [0, 1, 0] \<longrightarrow>
        packet_scan fl'' q
          = Inr (bits_to_int (take 27 (word_bits [uint a4, uint a5, uint a6, uint a7])),
                 \<lparr>consumed = a7 # a6 # a5 # a4 # a3 # a2 # a1 # a0 # consumed q, rest = r\<rparr>))"
  (is "?A \<and> ?B \<and> ?C \<and> ?D \<and> ?E")
proof -
  note old1 = packet_scan_fdri_setup[THEN conjunct1, rule_format]
  note old3 = packet_scan_fdri_setup[THEN conjunct2, THEN conjunct2, THEN conjunct1, rule_format]
  note old4 = packet_scan_fdri_setup[THEN conjunct2, THEN conjunct2, THEN conjunct2, THEN conjunct1,
      rule_format]
  note old5 = packet_scan_fdri_setup[THEN conjunct2, THEN conjunct2, THEN conjunct2, THEN conjunct2,
      rule_format]
  have wb: "length (word_bits [x0, x1, x2, x3]) = 32" "set (word_bits [x0, x1, x2, x3]) \<subseteq> {0, 1}"
    for x0 x1 x2 x3
    using word_bits_01 by (simp_all add: length_word_bits)
  have A: ?A
  proof
    assume run: "find_config_packet f = Inr ((part, n), f')"
    from old1[OF this] obtain b0 b1 b2 b3 b4 b5 b6 b7 c where o:
      "consumed f' = [b7, b6, b5, b4, b3, b2, b1, b0] @ c" "contents f' = contents f"
      "fdri_write_setup (word_bits [uint b0, uint b1, uint b2, uint b3])"
      "type_2_header (word_bits [uint b4, uint b5, uint b6, uint b7])"
      "n = bits_to_int (take 27 (word_bits [uint b4, uint b5, uint b6, uint b7]))"
      by blast
    let ?w1 = "word_bits [uint b0, uint b1, uint b2, uint b3]"
    let ?w2 = "word_bits [uint b4, uint b5, uint b6, uint b7]"
    have "take 11 ?w1 = replicate 11 0"
      "drop 13 ?w1 = [0, 1] @ replicate 12 0 @ [0, 1] @ [1, 0, 0]"
      using o(3) fdri_write_setup_bits[OF wb] by blast+
    moreover have "drop 29 ?w2 = [0, 1, 0]"
      using o(4) type_2_header_bits[OF wb(1)] by blast
    ultimately show "\<exists>b0 b1 b2 b3 b4 b5 b6 b7 c w1 w2.
          consumed f' = [b7, b6, b5, b4, b3, b2, b1, b0] @ c
        \<and> contents f' = contents f
        \<and> w1 = word_bits [uint b0, uint b1, uint b2, uint b3]
        \<and> w2 = word_bits [uint b4, uint b5, uint b6, uint b7]
        \<and> take 11 w1 = replicate 11 0
        \<and> drop 13 w1 = [0, 1] @ replicate 12 0 @ [0, 1] @ [1, 0, 0]
        \<and> drop 29 w2 = [0, 1, 0]
        \<and> n = bits_to_int (take 27 w2)"
      using o(1,2,5) by blast
  qed
  have B: ?B
  proof
    assume "packet_scan fl g = Inr (m, g')"
    from packet_scan_sound[OF this] obtain k where k:
      "k < length (words_of (rest g))" "g' = advance (4 * Suc k) g"
      "type_2_header (words_of (rest g) ! k)"
      "m = bits_to_int (take 27 (words_of (rest g) ! k))"
      "if k = 0 then fl else fdri_write_setup (words_of (rest g) ! (k - 1))"
      by blast
    have ok: "length (words_of (rest g) ! j) = 32 \<and> set (words_of (rest g) ! j) \<subseteq> {0, 1}"
      if "j < length (words_of (rest g))" for j
      using that words_of_length_32[of "words_of (rest g) ! j" "rest g"]
        words_of_01[of "words_of (rest g) ! j" "rest g"] by simp
    have t2: "drop 29 (words_of (rest g) ! k) = [0, 1, 0]"
      using k(1,3) ok[of k] type_2_header_bits by blast
    have prev: "if k = 0 then fl
            else take 11 (words_of (rest g) ! (k - 1)) = replicate 11 0
               \<and> drop 13 (words_of (rest g) ! (k - 1))
                   = [0, 1] @ replicate 12 0 @ [0, 1] @ [1, 0, 0]"
    proof (cases "k = 0")
      case True
      then show ?thesis using k(5) by simp
    next
      case False
      then have "k - 1 < length (words_of (rest g))" using k(1) by simp
      then have "length (words_of (rest g) ! (k - 1)) = 32" "set (words_of (rest g) ! (k - 1)) \<subseteq> {0, 1}"
        using ok by blast+
      from fdri_write_setup_bits[OF this] k(5) False show ?thesis by simp
    qed
    show "\<exists>k. k < length (words_of (rest g)) \<and> g' = advance (4 * Suc k) g
        \<and> drop 29 (words_of (rest g) ! k) = [0, 1, 0]
        \<and> m = bits_to_int (take 27 (words_of (rest g) ! k))
        \<and> (if k = 0 then fl
            else take 11 (words_of (rest g) ! (k - 1)) = replicate 11 0
               \<and> drop 13 (words_of (rest g) ! (k - 1))
                   = [0, 1] @ replicate 12 0 @ [0, 1] @ [1, 0, 0])"
      using k(1,2,4) t2 prev by blast
  qed
  have C: ?C
  proof
    assume a: "parse_word h = Inr (w, h1) \<and> drop 29 w \<noteq> [0, 1, 0]"
    then have "\<not> type_2_header w"
      using type_2_header_bits[of w] parse_word_length[of h w h1] by blast
    with a show "packet_scan True h = packet_scan False h"
      by (intro old3[of h w h1]) blast
  qed
  have D: ?D
  proof
    assume a: "parse_word h = Inr (w, h1) \<and> drop 29 w = [1, 0, 0]
        \<and> \<not> (take 11 w = replicate 11 0
              \<and> drop 13 w = [0, 1] @ replicate 12 0 @ [0, 1] @ [1, 0, 0])
        \<and> read_words (nat (bits_to_int (take 11 w))) h1 = Inr (ws, h2)"
    then have len: "length w = 32" and b01: "set w \<subseteq> {0, 1}"
      using parse_word_length[of h w h1] parse_word_01[of h w h1] by blast+
    have "type_1_header w" using a type_1_header_bits[OF len] by blast
    moreover have "\<not> fdri_write_setup w" using a fdri_write_setup_bits[OF len b01] by blast
    moreover have "read_words (nat (packet_1_length w)) h1 = Inr (ws, h2)"
      using a by (simp add: packet_1_length_def shift_sum_eq)
    ultimately show "packet_scan fl' h = packet_scan False h2"
      using a by (intro old4[of h w h1 ws h2]) blast
  qed
  have E: ?E
  proof
    assume a: "rest q = a0 # a1 # a2 # a3 # a4 # a5 # a6 # a7 # r
        \<and> take 11 (word_bits [uint a0, uint a1, uint a2, uint a3]) = replicate 11 0
        \<and> drop 13 (word_bits [uint a0, uint a1, uint a2, uint a3])
            = [0, 1] @ replicate 12 0 @ [0, 1] @ [1, 0, 0]
        \<and> drop 29 (word_bits [uint a4, uint a5, uint a6, uint a7]) = [0, 1, 0]"
    then have "fdri_write_setup (word_bits [uint a0, uint a1, uint a2, uint a3])"
      using fdri_write_setup_bits[OF wb] by blast
    moreover have "type_2_header (word_bits [uint a4, uint a5, uint a6, uint a7])"
      using a type_2_header_bits[OF wb(1)] by blast
    ultimately show "packet_scan fl'' q
          = Inr (bits_to_int (take 27 (word_bits [uint a4, uint a5, uint a6, uint a7])),
                 \<lparr>consumed = a7 # a6 # a5 # a4 # a3 # a2 # a1 # a0 # consumed q, rest = r\<rparr>)"
      using a by (intro old5[of q a0 a1 a2 a3 a4 a5 a6 a7 r]) blast
  qed
  show ?thesis by (rule conjI[OF A conjI[OF B conjI[OF C conjI[OF D E]]]])
qed


text \<open>
  On the sample packets the Type 2 headers of length 17 and 34, which follow a zero-length
  write to register 4 and a zero-length read of register 2, are passed over, and the length
  202 after the idiom is returned.
\<close>

theorem find_config_packet_fdri_idiom_witness:
  "find_config_packet \<lparr>consumed = [], rest = sample_bitstream\<rparr>
     = Inr ((''xc7-1'', 202), \<lparr>consumed = rev (take 48 sample_bitstream), rest = [1, 2]\<rparr>)
   \<and> (\<exists>b0 b1 b2 b3 b4 b5 b6 b7 c w1 w2.
          rev (take 48 sample_bitstream) = [b7, b6, b5, b4, b3, b2, b1, b0] @ c
        \<and> w1 = word_bits [uint b0, uint b1, uint b2, uint b3]
        \<and> w2 = word_bits [uint b4, uint b5, uint b6, uint b7]
        \<and> take 11 w1 = replicate 11 0
        \<and> drop 13 w1 = [0, 1] @ replicate 12 0 @ [0, 1] @ [1, 0, 0]
        \<and> drop 29 w2 = [0, 1, 0]
        \<and> 202 = bits_to_int (take 27 w2))
   \<and> packet_scan False \<lparr>consumed = [], rest = sample_packets\<rparr>
       = Inr (202, \<lparr>consumed = rev (take 32 sample_packets), rest = [1, 2]\<rparr>)
   \<and> (\<exists>k. k < length (words_of sample_packets) \<and> k \<noteq> 0
        \<and> drop 29 (words_of sample_packets ! k) = [0, 1, 0]
        \<and> take 11 (words_of sample_packets ! (k - 1)) = replicate 11 0
        \<and> drop 13 (words_of sample_packets ! (k - 1)) = [0, 1] @ replicate 12 0 @ [0, 1] @ [1, 0, 0])
   \<and> packet_scan True \<lparr>consumed = [], rest = sample_packets\<rparr>
       = packet_scan False \<lparr>consumed = [], rest = sample_packets\<rparr>
   \<and> packet_scan True \<lparr>consumed = [], rest = sample_packets\<rparr>
       = packet_scan False \<lparr>consumed = rev (take 8 sample_packets), rest = drop 8 sample_packets\<rparr>
   \<and> packet_scan True \<lparr>consumed = [], rest = drop 8 sample_packets\<rparr>
       = packet_scan False \<lparr>consumed = [0x00, 0x80, 0x00, 0x30], rest = drop 12 sample_packets\<rparr>
   \<and> packet_scan True \<lparr>consumed = [], rest = drop 16 sample_packets\<rparr>
       = packet_scan False \<lparr>consumed = [0x00, 0x40, 0x00, 0x28], rest = drop 20 sample_packets\<rparr>
   \<and> packet_scan False \<lparr>consumed = [], rest = drop 24 sample_packets\<rparr>
       = Inr (202, \<lparr>consumed = rev (take 8 (drop 24 sample_packets)), rest = [1, 2]\<rparr>)"
proof -
  let ?f0 = "\<lparr>consumed = [], rest = sample_bitstream\<rparr>"
  let ?f1 = "\<lparr>consumed = rev (take 48 sample_bitstream), rest = [1, 2]\<rparr>"
  let ?g0 = "\<lparr>consumed = [], rest = sample_packets\<rparr>"
  let ?g1 = "\<lparr>consumed = rev (take 32 sample_packets), rest = [1, 2]\<rparr>"
  let ?w = "word_bits [0x30, 0x00, 0x80, 0x01]"
  let ?h1 = "\<lparr>consumed = rev (take 4 sample_packets), rest = drop 4 sample_packets\<rparr>"
  let ?h2 = "\<lparr>consumed = rev (take 8 sample_packets), rest = drop 8 sample_packets\<rparr>"
  let ?p = "\<lparr>consumed = [], rest = drop 8 sample_packets\<rparr>"
  let ?wp = "word_bits [0x30, 0x00, 0x80, 0x00]"
  let ?p1 = "\<lparr>consumed = [0x00, 0x80, 0x00, 0x30], rest = drop 12 sample_packets\<rparr>"
  let ?o = "\<lparr>consumed = [], rest = drop 16 sample_packets\<rparr>"
  let ?wo = "word_bits [0x28, 0x00, 0x40, 0x00]"
  let ?o1 = "\<lparr>consumed = [0x00, 0x40, 0x00, 0x28], rest = drop 20 sample_packets\<rparr>"
  let ?q = "\<lparr>consumed = [], rest = drop 24 sample_packets\<rparr>"
  note c1 = find_config_packet_fdri_idiom[THEN conjunct1, rule_format]
  note c2 = find_config_packet_fdri_idiom[THEN conjunct2, THEN conjunct1, rule_format]
  note c3 = find_config_packet_fdri_idiom[THEN conjunct2, THEN conjunct2, THEN conjunct1, rule_format]
  note c4 = find_config_packet_fdri_idiom[THEN conjunct2, THEN conjunct2, THEN conjunct2,
      THEN conjunct1, rule_format]
  note c5 = find_config_packet_fdri_idiom[THEN conjunct2, THEN conjunct2, THEN conjunct2,
      THEN conjunct2, rule_format]
  have a1: "find_config_packet ?f0 = Inr ((''xc7-1'', 202), ?f1)"
    by code_simp
  have a2: "packet_scan False ?g0 = Inr (202, ?g1)"
    by code_simp
  have a3: "parse_word ?g0 = Inr (?w, ?h1)" "drop 29 ?w \<noteq> [0, 1, 0]" "drop 29 ?w = [1, 0, 0]"
    "\<not> (take 11 ?w = replicate 11 0 \<and> drop 13 ?w = [0, 1] @ replicate 12 0 @ [0, 1] @ [1, 0, 0])"
    "read_words (nat (bits_to_int (take 11 ?w))) ?h1 = Inr ([word_bits [0, 0, 0, 7]], ?h2)"
    by code_simp+
  have ap: "parse_word ?p = Inr (?wp, ?p1)" "drop 29 ?wp = [1, 0, 0]"
    "\<not> (take 11 ?wp = replicate 11 0 \<and> drop 13 ?wp = [0, 1] @ replicate 12 0 @ [0, 1] @ [1, 0, 0])"
    "read_words (nat (bits_to_int (take 11 ?wp))) ?p1 = Inr ([], ?p1)"
    by code_simp+
  have ao: "parse_word ?o = Inr (?wo, ?o1)" "drop 29 ?wo = [1, 0, 0]"
    "\<not> (take 11 ?wo = replicate 11 0 \<and> drop 13 ?wo = [0, 1] @ replicate 12 0 @ [0, 1] @ [1, 0, 0])"
    "read_words (nat (bits_to_int (take 11 ?wo))) ?o1 = Inr ([], ?o1)"
    by code_simp+
  have a5: "rest ?q = 0x30 # 0x00 # 0x40 # 0x00 # 0x50 # 0x00 # 0x00 # 0xCA # [1, 2]"
    "take 11 (word_bits [uint (0x30::byte), uint (0x00::byte), uint (0x40::byte), uint (0x00::byte)])
       = replicate 11 0"
    "drop 13 (word_bits [uint (0x30::byte), uint (0x00::byte), uint (0x40::byte), uint (0x00::byte)])
       = [0, 1] @ replicate 12 0 @ [0, 1] @ [1, 0, 0]"
    "drop 29 (word_bits [uint (0x50::byte), uint (0x00::byte), uint (0x00::byte), uint (0xCA::byte)])
       = [0, 1, 0]"
    by code_simp+
  from c1[OF a1] have r1: "\<exists>b0 b1 b2 b3 b4 b5 b6 b7 c w1 w2.
          rev (take 48 sample_bitstream) = [b7, b6, b5, b4, b3, b2, b1, b0] @ c
        \<and> w1 = word_bits [uint b0, uint b1, uint b2, uint b3]
        \<and> w2 = word_bits [uint b4, uint b5, uint b6, uint b7]
        \<and> take 11 w1 = replicate 11 0
        \<and> drop 13 w1 = [0, 1] @ replicate 12 0 @ [0, 1] @ [1, 0, 0]
        \<and> drop 29 w2 = [0, 1, 0]
        \<and> 202 = bits_to_int (take 27 w2)"
    by simp blast
  from c2[OF a2] obtain k where k: "k < length (words_of (rest ?g0))"
    "drop 29 (words_of (rest ?g0) ! k) = [0, 1, 0]"
    "if k = 0 then False
     else take 11 (words_of (rest ?g0) ! (k - 1)) = replicate 11 0
        \<and> drop 13 (words_of (rest ?g0) ! (k - 1)) = [0, 1] @ replicate 12 0 @ [0, 1] @ [1, 0, 0]"
    by blast
  then have r2: "\<exists>k. k < length (words_of sample_packets) \<and> k \<noteq> 0
        \<and> drop 29 (words_of sample_packets ! k) = [0, 1, 0]
        \<and> take 11 (words_of sample_packets ! (k - 1)) = replicate 11 0
        \<and> drop 13 (words_of sample_packets ! (k - 1)) = [0, 1] @ replicate 12 0 @ [0, 1] @ [1, 0, 0]"
    by (intro exI[of _ k]) (auto split: if_splits)
  have r3: "packet_scan True ?g0 = packet_scan False ?g0"
    using a3 by (intro c3[of ?g0 ?w ?h1]) blast
  have r4: "packet_scan True ?g0 = packet_scan False ?h2"
    using a3 by (intro c4[of ?g0 ?w ?h1 "[word_bits [0, 0, 0, 7]]" ?h2]) blast
  have r5: "packet_scan True ?p = packet_scan False ?p1"
    using ap by (intro c4[of ?p ?wp ?p1 "[]" ?p1]) blast
  have r6: "packet_scan True ?o = packet_scan False ?o1"
    using ao by (intro c4[of ?o ?wo ?o1 "[]" ?o1]) blast
  have "packet_scan False ?q
       = Inr (bits_to_int (take 27 (word_bits [uint (0x50::byte), uint (0x00::byte), uint (0x00::byte), uint (0xCA::byte)])),
              \<lparr>consumed = 0xCA # 0x00 # 0x00 # 0x50 # 0x00 # 0x40 # 0x00 # 0x30 # consumed ?q, rest = [1, 2]\<rparr>)"
    using a5 by (intro c5[of ?q "0x30" "0x00" "0x40" "0x00" "0x50" "0x00" "0x00" "0xCA" "[1, 2]"]) blast
  moreover have "Inr (bits_to_int (take 27 (word_bits [uint (0x50::byte), uint (0x00::byte), uint (0x00::byte), uint (0xCA::byte)])),
              \<lparr>consumed = 0xCA # 0x00 # 0x00 # 0x50 # 0x00 # 0x40 # 0x00 # 0x30 # consumed ?q, rest = [1, 2]\<rparr>)
      = (Inr (202, \<lparr>consumed = rev (take 8 (drop 24 sample_packets)), rest = [1, 2]\<rparr>) :: error + int \<times> bitfile)"
    by code_simp
  ultimately have r7: "packet_scan False ?q
       = Inr (202, \<lparr>consumed = rev (take 8 (drop 24 sample_packets)), rest = [1, 2]\<rparr>)"
    by simp
  show ?thesis
    using a1 r1 a2 r2 r3 r4 r5 r6 r7 by blast
qed

end
